theory Spec2Isabelle
  imports Main
begin

section \<open>Python values used by the comment analyzer\<close>

text \<open>
  The analyzer (\<^verbatim>\<open>comment_analyzer.py\<close>, \<^verbatim>\<open>app.py\<close>) works on JSON-like dictionaries.
  A dictionary with optional keys is a record of \<open>option\<close> fields (\<open>None\<close>: the key is absent),
  a Python \<^verbatim>\<open>int\<close> is an \<open>int\<close>, a \<^verbatim>\<open>str\<close> is a \<open>string\<close> (the model covers ASCII text), and
  every exception the code can raise is a value of \<open>py_exn\<close>, returned as \<open>Inl\<close>.
\<close>

datatype py_exn =
    ZeroDivisionError string
  | ValueError string
  | JSONDecodeError string
  | OtherError string

text \<open>\<^verbatim>\<open>str(e)\<close>.\<close>

fun exn_message :: "py_exn \<Rightarrow> string" where
  "exn_message (ZeroDivisionError m) = m"
| "exn_message (ValueError m) = m"
| "exn_message (JSONDecodeError m) = m"
| "exn_message (OtherError m) = m"

text \<open>\<^verbatim>\<open>isinstance(e, ValueError)\<close>: \<^verbatim>\<open>json.JSONDecodeError\<close> is a subclass of \<^verbatim>\<open>ValueError\<close>.\<close>

fun is_ValueError :: "py_exn \<Rightarrow> bool" where
  "is_ValueError (ValueError m) = True"
| "is_ValueError (JSONDecodeError m) = True"
| "is_ValueError e = False"

text \<open>\<^verbatim>\<open>d.get(key, default)\<close> on an optional key.\<close>

definition get :: "'a option \<Rightarrow> 'a \<Rightarrow> 'a" where
  "get v d = (case v of None \<Rightarrow> d | Some x \<Rightarrow> x)"

text \<open>\<^verbatim>\<open>a // b\<close> on non-negative integers.\<close>

definition floordiv :: "nat \<Rightarrow> nat \<Rightarrow> py_exn + nat" where
  "floordiv a b =
     (if b = 0 then Inl (ZeroDivisionError ''integer division or modulo by zero'')
      else Inr (a div b))"

text \<open>\<^verbatim>\<open>str.lower()\<close> on ASCII letters; every other character is kept.\<close>

definition lower_char :: "char \<Rightarrow> char" where
  "lower_char c =
     (let n = (of_char c :: nat) in if 65 \<le> n \<and> n \<le> 90 then char_of (n + 32) else c)"

definition lower :: "string \<Rightarrow> string" where
  "lower s = map lower_char s"

text \<open>
  \<^verbatim>\<open>str.isspace()\<close> of one character, which is also what \<^verbatim>\<open>\s\<close> matches: the codes 9 to 13
  and 28 to 32.
\<close>

definition isspace :: "char \<Rightarrow> bool" where
  "isspace c =
     (let n = (of_char c :: nat) in (9 \<le> n \<and> n \<le> 13) \<or> (28 \<le> n \<and> n \<le> 32))"

text \<open>
  \<^verbatim>\<open>sorted(xs, key=key, reverse=True)\<close>: the elements are sorted as if each comparison were
  reversed, and elements with equal keys keep their order. On integer keys that is the stable
  sort by the negated key.
\<close>

definition sorted_desc :: "('a \<Rightarrow> int) \<Rightarrow> 'a list \<Rightarrow> 'a list" where
  "sorted_desc key xs = sort_key (\<lambda>x. - key x) xs"

text \<open>\<^verbatim>\<open>xs[::step]\<close> for \<open>step \<ge> 1\<close>: the elements at the indices \<open>0, step, 2 * step, ...\<close>.\<close>

function every_nth :: "nat \<Rightarrow> 'a list \<Rightarrow> 'a list" where
  "every_nth step [] = []"
| "every_nth step (x # xs) = x # every_nth step (drop (step - 1) xs)"
  by pat_completeness auto
termination
  by (relation "measure (\<lambda>(step, xs). length xs)") auto

definition slice_step :: "'a list \<Rightarrow> nat \<Rightarrow> py_exn + 'a list" where
  "slice_step xs step =
     (if step = 0 then Inl (ValueError ''slice step cannot be zero'')
      else Inr (every_nth step xs))"

text \<open>\<^verbatim>\<open>range(start, stop, step)\<close> for a non-negative start and stop.\<close>

function range_from :: "nat \<Rightarrow> nat \<Rightarrow> nat \<Rightarrow> nat list" where
  "range_from i stop step =
     (if step = 0 \<or> stop \<le> i then [] else i # range_from (i + step) stop step)"
  by pat_completeness auto
termination
  by (relation "measure (\<lambda>(i, stop, step). stop - i)") auto

declare range_from.simps [simp del]

definition range_step :: "nat \<Rightarrow> nat \<Rightarrow> nat \<Rightarrow> py_exn + nat list" where
  "range_step start stop step =
     (if step = 0 then Inl (ValueError ''range() arg 3 must not be zero'')
      else Inr (range_from start stop step))"

text \<open>Decimal rendering of integers in an f-string.\<close>

function show_nat :: "nat \<Rightarrow> string" where
  "show_nat n =
     (if n < 10 then [char_of (48 + n)] else show_nat (n div 10) @ [char_of (48 + n mod 10)])"
  by pat_completeness auto
termination
  by (relation "measure id") auto

declare show_nat.simps [simp del]

definition show_int :: "int \<Rightarrow> string" where
  "show_int i = (if i < 0 then CHR ''-'' # show_nat (nat (- i)) else show_nat (nat i))"

text \<open>\<^verbatim>\<open>sep.join(xs)\<close>.\<close>

fun join :: "string \<Rightarrow> string list \<Rightarrow> string" where
  "join sep [] = []"
| "join sep [x] = x"
| "join sep (x # y # ys) = x @ sep @ join sep (y # ys)"


section \<open>Cleaning a comment body\<close>

text \<open>
  \<^verbatim>\<open>re.sub(r'<[^>]+>', ' ', s)\<close>: matches are found from the left and do not overlap. A match
  starts at a \<open><\<close> that is followed by at least one character other than \<open>>\<close> and, after
  the longest run of such characters, by a \<open>>\<close>.
\<close>

function sub_tags :: "string \<Rightarrow> string" where
  "sub_tags [] = []"
| "sub_tags (c # cs) =
     (if c = CHR ''<'' \<and> takeWhile (\<lambda>x. x \<noteq> CHR ''>'') cs \<noteq> []
         \<and> dropWhile (\<lambda>x. x \<noteq> CHR ''>'') cs \<noteq> []
      then CHR '' '' # sub_tags (tl (dropWhile (\<lambda>x. x \<noteq> CHR ''>'') cs))
      else c # sub_tags cs)"
  by pat_completeness auto
termination
  by (relation "measure length")
     (auto simp: less_Suc_eq_le intro!: order_trans [OF diff_le_self length_dropWhile_le])

text \<open>\<^verbatim>\<open>re.sub(r'\s+', ' ', s)\<close>: every maximal run of whitespace becomes one space.\<close>

function sub_spaces :: "string \<Rightarrow> string" where
  "sub_spaces [] = []"
| "sub_spaces (c # cs) =
     (if isspace c then CHR '' '' # sub_spaces (dropWhile isspace cs)
      else c # sub_spaces cs)"
  by pat_completeness auto
termination
  by (relation "measure length") (auto simp: less_Suc_eq_le length_dropWhile_le)

text \<open>\<^verbatim>\<open>s.strip()\<close>.\<close>

definition strip :: "string \<Rightarrow> string" where
  "strip s = rev (dropWhile isspace (rev (dropWhile isspace s)))"

definition clean_html :: "string \<Rightarrow> string" where
  "clean_html html_text = strip (sub_spaces (sub_tags html_text))"

text \<open>Auxiliary predicates: a text without a tag match, and a text whose whitespace is collapsed.\<close>

fun no_tag :: "string \<Rightarrow> bool" where
  "no_tag [] = True"
| "no_tag (c # cs) =
     ((c = CHR ''<'' \<longrightarrow> takeWhile (\<lambda>x. x \<noteq> CHR ''>'') cs = []
         \<or> dropWhile (\<lambda>x. x \<noteq> CHR ''>'') cs = []) \<and> no_tag cs)"

fun ws_norm :: "string \<Rightarrow> bool" where
  "ws_norm [] = True"
| "ws_norm (c # cs) =
     ((isspace c \<longrightarrow> c = CHR '' '' \<and> (cs = [] \<or> \<not> isspace (hd cs))) \<and> ws_norm cs)"


section \<open>Selecting and formatting comments\<close>

record comment =
  numRecommends :: "int option"
  body :: "string option"
  displayName :: "string option"
  userId :: "string option"
  from_article_title :: "string option"

text \<open>\<^verbatim>\<open>c.get('numRecommends', 0)\<close>, the sort key.\<close>

definition recommends :: "comment \<Rightarrow> int" where
  "recommends c = get (numRecommends c) 0"

text \<open>
  The selection of \<^verbatim>\<open>prepare_comments_for_analysis\<close> (the value of its variable
  \<^verbatim>\<open>selected\<close>), for a count \<open>max_comments\<close>.
\<close>

definition select_comments :: "comment list \<Rightarrow> nat \<Rightarrow> py_exn + comment list" where
  "select_comments comments max_comments =
     (let sorted_comments = sorted_desc recommends comments in
      if length sorted_comments > max_comments then
        (let top_comments = take (max_comments div 2) sorted_comments;
             remaining = drop (max_comments div 2) sorted_comments
         in case (if length remaining > max_comments div 2
                  then floordiv (length remaining) (max_comments div 2)
                  else Inr 1) of
              Inl e \<Rightarrow> Inl e
            | Inr step \<Rightarrow>
                (case slice_step remaining step of
                   Inl e \<Rightarrow> Inl e
                 | Inr strided \<Rightarrow> Inr (top_comments @ take (max_comments div 2) strided)))
      else Inr sorted_comments)"

definition format_comment :: "nat \<times> comment \<Rightarrow> string" where
  "format_comment ic =
     (case ic of (i, c) \<Rightarrow>
        ''[Comment '' @ show_nat i @ ''] ('' @ show_int (recommends c) @ '' likes) @''
          @ get (displayName c) ''Anonymous'' @ '': '' @ clean_html (get (body c) ''''))"

definition prepare_comments_for_analysis :: "comment list \<Rightarrow> nat \<Rightarrow> py_exn + string" where
  "prepare_comments_for_analysis comments max_comments =
     (case select_comments comments max_comments of
        Inl e \<Rightarrow> Inl e
      | Inr selected \<Rightarrow>
          Inr (join [CHR 0x0A, CHR 0x0A]
                 (map format_comment (zip [1 ..< Suc (length selected)] selected))))"


section \<open>Batching\<close>

text \<open>
  The batches of \<^verbatim>\<open>extract_commercial_opportunities_batched\<close> and of the keyword and section
  flows of \<^verbatim>\<open>app.py\<close>: \<^verbatim>\<open>sorted_comments[i:i + batch_size]\<close> for \<open>i\<close> in
  \<^verbatim>\<open>range(0, len(sorted_comments), batch_size)\<close>.
\<close>

definition split_batches :: "comment list \<Rightarrow> nat \<Rightarrow> py_exn + comment list list" where
  "split_batches comments batch_size =
     (let sorted_comments = sorted_desc recommends comments in
      case range_step 0 (length sorted_comments) batch_size of
        Inl e \<Rightarrow> Inl e
      | Inr starts \<Rightarrow> Inr (map (\<lambda>i. take batch_size (drop i sorted_comments)) starts))"


section \<open>Merging analysis results\<close>

text \<open>
  The dictionaries returned by the analysis service. Every key is optional; a value that is
  present has the type the service documents for it.
\<close>

record brand =
  brand_name :: "string option"
  brand_category :: "string option"
  brand_sentiment :: "string option"
  brand_mentions :: "int option"

record recommendation =
  rec_item :: "string option"
  rec_category :: "string option"
  rec_quote :: "string option"
  rec_endorsements :: "int option"

record opportunity =
  opp_type :: "string option"
  opp_target :: "string option"
  opp_rationale :: "string option"

record analysis_result =
  error :: "string option"
  raw :: "string option"
  brands :: "brand list option"
  recommendations :: "recommendation list option"
  opportunities :: "opportunity list option"

text \<open>
  The entries that \<^verbatim>\<open>merge_commercial_results\<close> builds: all four keys are present, and
  \<open>name\<close> and \<open>item\<close> hold \<^verbatim>\<open>brand.get("name")\<close> and \<^verbatim>\<open>rec.get("item")\<close>.
\<close>

record merged_brand =
  name :: "string option"
  category :: string
  sentiment :: string
  mentions :: int

record merged_recommendation =
  item :: "string option"
  item_category :: string
  quote :: string
  endorsements :: int

record merged_result =
  out_brands :: "merged_brand list"
  out_recommendations :: "merged_recommendation list"
  out_opportunities :: "opportunity list"

text \<open>
  A Python \<^verbatim>\<open>dict\<close> keeps its keys in insertion order: an association list with distinct
  keys. \<open>contains\<close> is \<^verbatim>\<open>k in d\<close>, \<open>setitem\<close> is \<^verbatim>\<open>d[k] = v\<close> (a new key goes to the end)
  and \<open>update_entry\<close> is an in-place change of the value stored under \<open>k\<close>.
\<close>

type_synonym ('k, 'v) dict = "('k \<times> 'v) list"

definition contains :: "'k \<Rightarrow> ('k, 'v) dict \<Rightarrow> bool" where
  "contains k d = (map_of d k \<noteq> None)"

fun setitem :: "'k \<Rightarrow> 'v \<Rightarrow> ('k, 'v) dict \<Rightarrow> ('k, 'v) dict" where
  "setitem k v [] = [(k, v)]"
| "setitem k v (p # ps) = (if fst p = k then (k, v) # ps else p # setitem k v ps)"

definition update_entry :: "'k \<Rightarrow> ('v \<Rightarrow> 'v) \<Rightarrow> ('k, 'v) dict \<Rightarrow> ('k, 'v) dict" where
  "update_entry k f d = map (\<lambda>p. if fst p = k then (fst p, f (snd p)) else p) d"

definition dict_values :: "('k, 'v) dict \<Rightarrow> 'v list" where
  "dict_values d = map snd d"

text \<open>The body of the loop over \<^verbatim>\<open>result.get("brands", [])\<close>.\<close>

definition merge_brand :: "brand \<Rightarrow> (string, merged_brand) dict \<Rightarrow> (string, merged_brand) dict"
  where
  "merge_brand brand merged_brands =
     (let name = lower (get (brand_name brand) '''') in
      if name = [] then merged_brands
      else if contains name merged_brands then
        update_entry name
          (\<lambda>e. let e' = e\<lparr>mentions := mentions e + get (brand_mentions brand) 1\<rparr> in
                case brand_sentiment brand of
                  None \<Rightarrow> e'
                | Some s \<Rightarrow> if s = ''positive'' \<or> s = ''negative'' then e'\<lparr>sentiment := s\<rparr> else e')
          merged_brands
      else
        setitem name
          \<lparr>name = brand_name brand,
           category = get (brand_category brand) '''',
           sentiment = get (brand_sentiment brand) ''neutral'',
           mentions = get (brand_mentions brand) 1\<rparr>
          merged_brands)"

text \<open>The body of the loop over \<^verbatim>\<open>result.get("recommendations", [])\<close>.\<close>

definition merge_recommendation ::
  "recommendation \<Rightarrow> (string, merged_recommendation) dict \<Rightarrow> (string, merged_recommendation) dict"
  where
  "merge_recommendation rec merged_recommendations =
     (let item = lower (get (rec_item rec) '''') in
      if item = [] then merged_recommendations
      else if contains item merged_recommendations then
        update_entry item
          (\<lambda>e. e\<lparr>endorsements := endorsements e + get (rec_endorsements rec) 1\<rparr>)
          merged_recommendations
      else
        setitem item
          \<lparr>item = rec_item rec,
           item_category = get (rec_category rec) '''',
           quote = get (rec_quote rec) '''',
           endorsements = get (rec_endorsements rec) 1\<rparr>
          merged_recommendations)"

text \<open>The body of the loop over \<^verbatim>\<open>result.get("opportunities", [])\<close>.\<close>

definition opp_key :: "opportunity \<Rightarrow> string \<times> string" where
  "opp_key opp = (lower (get (opp_target opp) ''''), lower (get (opp_type opp) ''''))"

definition merge_opportunity ::
  "opportunity \<Rightarrow> (string \<times> string, opportunity) dict \<Rightarrow> (string \<times> string, opportunity) dict"
  where
  "merge_opportunity opp merged_opportunities =
     (let key = opp_key opp in
      if fst key \<noteq> [] \<and> \<not> contains key merged_opportunities
      then setitem key opp merged_opportunities
      else merged_opportunities)"

record merge_state =
  merged_brands :: "(string, merged_brand) dict"
  merged_recommendations :: "(string, merged_recommendation) dict"
  merged_opportunities :: "(string \<times> string, opportunity) dict"

text \<open>
  An element of \<^verbatim>\<open>results\<close> is \<open>None\<close> (Python's \<^verbatim>\<open>None\<close>, a JSON \<^verbatim>\<open>null\<close>) or a dictionary.
  \<open>skipped\<close> is the test \<^verbatim>\<open>not result or "error" in result\<close>: \<^verbatim>\<open>None\<close> and the empty
  dictionary are falsy.
\<close>

definition empty_dict :: "analysis_result \<Rightarrow> bool" where
  "empty_dict r \<longleftrightarrow>
     error r = None \<and> raw r = None \<and> brands r = None \<and> recommendations r = None
       \<and> opportunities r = None"

definition skipped :: "analysis_result option \<Rightarrow> bool" where
  "skipped result = (case result of None \<Rightarrow> True | Some r \<Rightarrow> empty_dict r \<or> error r \<noteq> None)"

definition merge_result :: "analysis_result option \<Rightarrow> merge_state \<Rightarrow> merge_state" where
  "merge_result result st =
     (case result of
        None \<Rightarrow> st
      | Some r \<Rightarrow>
          if skipped result then st
          else
            \<lparr>merged_brands = fold merge_brand (get (brands r) []) (merged_brands st),
             merged_recommendations =
               fold merge_recommendation (get (recommendations r) []) (merged_recommendations st),
             merged_opportunities =
               fold merge_opportunity (get (opportunities r) []) (merged_opportunities st)\<rparr>)"

definition merge_commercial_results :: "analysis_result option list \<Rightarrow> merged_result" where
  "merge_commercial_results results =
     (let st = fold merge_result results
                 \<lparr>merged_brands = [], merged_recommendations = [], merged_opportunities = []\<rparr>
      in \<lparr>out_brands = sorted_desc mentions (dict_values (merged_brands st)),
          out_recommendations =
            take 8 (sorted_desc endorsements (dict_values (merged_recommendations st))),
          out_opportunities = take 5 (dict_values (merged_opportunities st))\<rparr>)"

text \<open>
  The merged dictionary has the three keys of an analysis result, so it can be merged again:
  \<open>as_result\<close> reads it as an input dictionary.
\<close>

definition as_brand :: "merged_brand \<Rightarrow> brand" where
  "as_brand e =
     \<lparr>brand_name = name e, brand_category = Some (category e),
      brand_sentiment = Some (sentiment e), brand_mentions = Some (mentions e)\<rparr>"

definition as_recommendation :: "merged_recommendation \<Rightarrow> recommendation" where
  "as_recommendation e =
     \<lparr>rec_item = item e, rec_category = Some (item_category e),
      rec_quote = Some (quote e), rec_endorsements = Some (endorsements e)\<rparr>"

definition as_result :: "merged_result \<Rightarrow> analysis_result" where
  "as_result m =
     \<lparr>error = None, raw = None,
      brands = Some (map as_brand (out_brands m)),
      recommendations = Some (map as_recommendation (out_recommendations m)),
      opportunities = Some (out_opportunities m)\<rparr>"

definition empty_result :: merged_result where
  "empty_result = \<lparr>out_brands = [], out_recommendations = [], out_opportunities = []\<rparr>"


section \<open>The analysis service and the pipelines\<close>

text \<open>
  What a pipeline leaves outside: the events it yields to the streaming layer and the calls it
  makes to the analysis service, in their order.
\<close>

datatype json = Str string | Num nat

record article =
  title :: string
  url :: string
  short_url :: string

datatype payload =
    Meta "(string \<times> json) list"
  | Articles "article list"
  | Analysis string
  | Commercial "analysis_result option"
  | Merged merged_result

datatype event =
    Error_event string
  | Progress string string
  | Result_event string payload
  | Complete string

datatype service_call = Questions_call | Sentiment_call | Commercial_call | Aggregated_call nat

datatype action = Yield event | Service service_call

text \<open>
  The collaborators of a request. The scraper and the analysis service are external and may
  raise; \<open>messages_create\<close> is the service call \<^verbatim>\<open>client.messages.create\<close> of the two commercial
  extractions, given the number of the batch it is made for (the service is not a function of
  its prompt) and returning the text of the response; \<open>json_loads\<close> is \<^verbatim>\<open>json.loads\<close>, whose
  failure \<open>Inl\<close> is a \<^verbatim>\<open>JSONDecodeError\<close> with that message. The client handle is taken to be
  initialised.
\<close>

datatype prompt =
    Commercial_prompt string string
  | Aggregated_prompt string nat string

record fetched =
  fetched_comments :: "comment list option"
  discussion_title :: "string option"

record env =
  anthropic_api_key :: bool
  guardian_api_key :: bool
  extract_short_url :: "string \<Rightarrow> py_exn + string"
  fetch_all_comments :: "string \<Rightarrow> py_exn + fetched"
  search_articles_by_keyword :: "string \<Rightarrow> nat \<Rightarrow> py_exn + article list"
  extract_articles_from_section :: "string \<Rightarrow> nat \<Rightarrow> py_exn + article list"
  generate_discussion_questions :: "string \<Rightarrow> string \<Rightarrow> py_exn + string"
  analyze_sentiment :: "string \<Rightarrow> string \<Rightarrow> py_exn + string"
  messages_create :: "nat \<Rightarrow> prompt \<Rightarrow> py_exn + string"
  json_loads :: "string \<Rightarrow> string + analysis_result option"

text \<open>
  \<^verbatim>\<open>re.search(r'\{.*\}', text, re.DOTALL)\<close>: the text from the first \<open>{\<close> to the last \<open>}\<close>
  after it, if there is one.
\<close>

definition search_braces :: "string \<Rightarrow> string option" where
  "search_braces text =
     (let from_open = dropWhile (\<lambda>c. c \<noteq> CHR ''{'') text;
          matched = rev (dropWhile (\<lambda>c. c \<noteq> CHR ''}'') (rev from_open))
      in if from_open = [] \<or> matched = [] then None else Some matched)"

text \<open>
  The parsing shared by \<^verbatim>\<open>extract_commercial_opportunities\<close> and
  \<^verbatim>\<open>extract_commercial_opportunities_aggregated\<close>: a strict parse; on a decode error the braces
  are searched and parsed (a decode error of this second parse is not caught); with no braces
  the result is the error-marked dictionary that carries the raw text.
\<close>

definition parse_response :: "env \<Rightarrow> string \<Rightarrow> py_exn + analysis_result option" where
  "parse_response env text =
     (case json_loads env text of
        Inr result \<Rightarrow> Inr result
      | Inl _ \<Rightarrow>
          (case search_braces text of
             Some matched \<Rightarrow>
               (case json_loads env matched of
                  Inr result \<Rightarrow> Inr result
                | Inl msg \<Rightarrow> Inl (JSONDecodeError msg))
           | None \<Rightarrow>
               Inr (Some \<lparr>error = Some ''Failed to parse commercial opportunities'',
                          raw = Some text, brands = None, recommendations = None,
                          opportunities = None\<rparr>)))"

definition extract_commercial_opportunities ::
  "env \<Rightarrow> string \<Rightarrow> string \<Rightarrow> py_exn + analysis_result option" where
  "extract_commercial_opportunities env comments_text article_title =
     (case messages_create env 0 (Commercial_prompt article_title comments_text) of
        Inl e \<Rightarrow> Inl e
      | Inr text \<Rightarrow> parse_response env text)"

definition extract_commercial_opportunities_aggregated ::
  "env \<Rightarrow> nat \<Rightarrow> string \<Rightarrow> string \<Rightarrow> nat \<Rightarrow> py_exn + analysis_result option" where
  "extract_commercial_opportunities_aggregated env batch_no comments_text keyword article_count =
     (case messages_create env batch_no (Aggregated_prompt keyword article_count comments_text) of
        Inl e \<Rightarrow> Inl e
      | Inr text \<Rightarrow> parse_response env text)"

text \<open>
  The loop over the batches in \<^verbatim>\<open>extract_commercial_opportunities_batched\<close>, without a
  progress callback: the calls made and the list \<^verbatim>\<open>batch_results\<close>, or the exception that
  ends the loop.
\<close>

fun process_batches ::
  "env \<Rightarrow> string \<Rightarrow> nat \<Rightarrow> nat \<Rightarrow> comment list list
     \<Rightarrow> action list \<times> (py_exn + analysis_result option list)" where
  "process_batches env keyword article_count i [] = ([], Inr [])"
| "process_batches env keyword article_count i (batch # rest) =
     (case prepare_comments_for_analysis batch (length batch) of
        Inl e \<Rightarrow> ([], Inl e)
      | Inr comments_text \<Rightarrow>
          (case extract_commercial_opportunities_aggregated env i comments_text keyword
                  article_count of
             Inl e \<Rightarrow> ([Service (Aggregated_call i)], Inl e)
           | Inr result \<Rightarrow>
               (case process_batches env keyword article_count (Suc i) rest of
                  (calls, Inl e) \<Rightarrow> (Service (Aggregated_call i) # calls, Inl e)
                | (calls, Inr results) \<Rightarrow>
                    (Service (Aggregated_call i) # calls, Inr (result # results)))))"

definition extract_commercial_opportunities_batched ::
  "env \<Rightarrow> comment list \<Rightarrow> string \<Rightarrow> nat \<Rightarrow> nat \<Rightarrow> action list \<times> (py_exn + merged_result)"
  where
  "extract_commercial_opportunities_batched env comments keyword article_count batch_size =
     (case split_batches comments batch_size of
        Inl e \<Rightarrow> ([], Inl e)
      | Inr batches \<Rightarrow>
          if batches = [] then ([], Inr empty_result)
          else
            (case process_batches env keyword article_count 0 batches of
               (calls, Inl e) \<Rightarrow> (calls, Inl e)
             | (calls, Inr batch_results) \<Rightarrow>
                 (calls, Inr (merge_commercial_results batch_results))))"

text \<open>
  The handlers that close every flow of \<^verbatim>\<open>app.py\<close>: \<^verbatim>\<open>except ValueError\<close> reports the message,
  \<^verbatim>\<open>except Exception\<close> the message after \<^verbatim>\<open>Error: \<close>.
\<close>

definition failed :: "py_exn \<Rightarrow> action" where
  "failed e =
     Yield (Error_event (if is_ValueError e then exn_message e else ''Error: '' @ exn_message e))"

definition apostrophe :: string where
  "apostrophe = [CHR 0x27]"

text \<open>
  \<^verbatim>\<open>generate_analysis\<close>, the flow for one article: phases 2 and 3 first (the comments are
  prepared and the three analyses run one after the other), then the whole flow.
\<close>

definition run_analyses :: "env \<Rightarrow> comment list \<Rightarrow> string \<Rightarrow> action list" where
  "run_analyses env comments article_title =
     Yield (Progress ''preparing'' ''Preparing comments for analysis...'') #
     (case prepare_comments_for_analysis comments 200 of
        Inl e \<Rightarrow> [failed e]
      | Inr comments_text \<Rightarrow>
          Yield (Progress ''analyzing'' ''Generating discussion questions...'') #
          Service Questions_call #
          (case generate_discussion_questions env comments_text article_title of
             Inl e \<Rightarrow> [failed e]
           | Inr questions \<Rightarrow>
               Yield (Result_event ''discussionQuestions'' (Analysis questions)) #
               Yield (Progress ''analyzing'' ''Analyzing sentiment...'') #
               Service Sentiment_call #
               (case analyze_sentiment env comments_text article_title of
                  Inl e \<Rightarrow> [failed e]
                | Inr sentiment_data \<Rightarrow>
                    [Yield (Result_event ''sentiment'' (Analysis sentiment_data)),
                     Yield (Progress ''analyzing'' ''Extracting commercial opportunities...''),
                     Service Commercial_call,
                     Yield (Result_event ''commercialOpportunities''
                       (Commercial
                          (case extract_commercial_opportunities env comments_text
                                  article_title of
                             Inl e \<Rightarrow>
                               Some \<lparr>error = None, raw = None, brands = Some [],
                                 recommendations = Some [], opportunities = Some []\<rparr>
                           | Inr commercial \<Rightarrow> commercial))),
                     Yield (Complete ''Analysis complete'')])))"

definition generate_analysis :: "env \<Rightarrow> string \<Rightarrow> action list" where
  "generate_analysis env article_url =
     (if \<not> anthropic_api_key env then
        [Yield (Error_event
           ''ANTHROPIC_API_KEY environment variable not set. Set it before starting the server.'')]
      else
        Yield (Progress ''scraping'' ''Extracting discussion key...'') #
        (case extract_short_url env article_url of
           Inl e \<Rightarrow> [failed e]
         | Inr key \<Rightarrow>
             Yield (Progress ''scraping'' (''Found key '' @ key @ ''. Fetching comments...'')) #
             (case fetch_all_comments env key of
                Inl e \<Rightarrow> [failed e]
              | Inr result \<Rightarrow>
                  (case fetched_comments result of
                     None \<Rightarrow> [failed (OtherError (apostrophe @ ''comments'' @ apostrophe))]
                   | Some comments \<Rightarrow>
                       Yield (Progress ''scraping''
                         (''Scraped '' @ show_nat (length comments) @ '' comments'')) #
                       Yield (Result_event ''meta''
                         (Meta [(''articleTitle'',
                                   Str (get (discussion_title result) ''Unknown Article'')),
                                (''articleUrl'', Str article_url),
                                (''totalComments'', Num (length comments)),
                                (''uniqueCommenters'',
                                   Num (length (remdups (map (\<lambda>c. get (userId c) '''') comments)))),
                                (''commentsAnalyzed'', Num (min (length comments) 200))])) #
                       (if length comments = 0 then [Yield (Complete ''No comments to analyze.'')]
                        else run_analyses env comments
                               (get (discussion_title result) ''Unknown Article''))))))"

text \<open>
  The scraping loop of the keyword and the section flow: a failed fetch is reported as a
  warning and the loop goes on. The state is \<^verbatim>\<open>all_comments\<close> and
  \<^verbatim>\<open>articles_with_comments\<close>.
\<close>

fun scrape_articles ::
  "env \<Rightarrow> nat \<Rightarrow> nat \<Rightarrow> article list \<Rightarrow> comment list \<times> (string \<times> string \<times> nat) list
     \<Rightarrow> action list \<times> comment list \<times> (string \<times> string \<times> nat) list" where
  "scrape_articles env i n [] st = ([], st)"
| "scrape_articles env i n (a # rest) (all_comments, articles_with_comments) =
     (let progress = Yield (Progress ''scraping''
            (''Scraping comments from article '' @ show_nat (i + 1) @ ''/'' @ show_nat n
               @ '': '' @ take 50 (title a) @ ''...''))
      in case fetch_all_comments env (short_url a) of
           Inl e \<Rightarrow>
             (case scrape_articles env (Suc i) n rest (all_comments, articles_with_comments) of
                (events, st) \<Rightarrow>
                  (progress #
                   Yield (Progress ''scraping''
                     (''Warning: Could not fetch comments for article '' @ show_nat (i + 1))) #
                   events, st))
         | Inr result \<Rightarrow>
             (let comments =
                    map (\<lambda>c. c\<lparr>from_article_title := Some (title a)\<rparr>)
                      (get (fetched_comments result) [])
              in case scrape_articles env (Suc i) n rest
                        (all_comments @ comments,
                         if comments \<noteq> []
                         then articles_with_comments @ [(title a, url a, length comments)]
                         else articles_with_comments) of
                   (events, st) \<Rightarrow> (progress # events, st)))"

text \<open>The batch loop of the keyword and the section flow.\<close>

fun analyze_batches ::
  "env \<Rightarrow> string \<Rightarrow> nat \<Rightarrow> nat \<Rightarrow> nat \<Rightarrow> comment list list
     \<Rightarrow> action list \<times> (py_exn + analysis_result option list)" where
  "analyze_batches env label article_count i num_batches [] = ([], Inr [])"
| "analyze_batches env label article_count i num_batches (batch # rest) =
     (let progress = Yield (Progress ''analyzing''
            (''Processing batch '' @ show_nat (i + 1) @ ''/'' @ show_nat num_batches @ '' (''
               @ show_nat (length batch) @ '' comments)...''))
      in case prepare_comments_for_analysis batch (length batch) of
           Inl e \<Rightarrow> ([progress], Inl e)
         | Inr comments_text \<Rightarrow>
             (case extract_commercial_opportunities_aggregated env i comments_text label
                     article_count of
                Inl e \<Rightarrow> ([progress, Service (Aggregated_call i)], Inl e)
              | Inr result \<Rightarrow>
                  (case analyze_batches env label article_count (Suc i) num_batches rest of
                     (events, Inl e) \<Rightarrow> (progress # Service (Aggregated_call i) # events, Inl e)
                   | (events, Inr results) \<Rightarrow>
                       (progress # Service (Aggregated_call i) # events,
                        Inr (result # results)))))"

text \<open>
  Phase 3 of the keyword and the section flow, which the two functions spell out identically:
  batches of 200, one service call per batch, the merge, and the final events.
\<close>

definition analyze_in_batches :: "env \<Rightarrow> string \<Rightarrow> nat \<Rightarrow> comment list \<Rightarrow> action list" where
  "analyze_in_batches env label article_count all_comments =
     (case split_batches all_comments 200 of
        Inl e \<Rightarrow> [failed e]
      | Inr batches \<Rightarrow>
          Yield (Progress ''analyzing''
            (''Analyzing '' @ show_nat (length all_comments) @ '' comments in ''
               @ show_nat (length batches) @ '' batch(es)...'')) #
          (case analyze_batches env label article_count 0 (length batches) batches of
             (events, Inl e) \<Rightarrow> events @ [failed e]
           | (events, Inr batch_results) \<Rightarrow>
               events @
               [Yield (Result_event ''commercialOpportunities''
                  (Merged (merge_commercial_results batch_results))),
                Yield (Complete ''Analysis complete'')]))"

text \<open>\<^verbatim>\<open>generate_keyword_analysis\<close>.\<close>

definition generate_keyword_analysis :: "env \<Rightarrow> string \<Rightarrow> nat \<Rightarrow> action list" where
  "generate_keyword_analysis env keyword limit =
     (if \<not> anthropic_api_key env then
        [Yield (Error_event ''ANTHROPIC_API_KEY environment variable not set.'')]
      else if \<not> guardian_api_key env then
        [Yield (Error_event ''GUARDIAN_API_KEY environment variable not set.'')]
      else
        Yield (Progress ''searching''
          (''Searching for articles about '' @ apostrophe @ keyword @ apostrophe @ ''...'')) #
        (case search_articles_by_keyword env keyword limit of
           Inl e \<Rightarrow> [failed e]
         | Inr articles \<Rightarrow>
             if articles = [] then
               [Yield (Error_event
                  (''No articles found for '' @ apostrophe @ keyword @ apostrophe))]
             else
               Yield (Progress ''searching''
                 (''Found '' @ show_nat (length articles) @ '' articles'')) #
               Yield (Result_event ''articles'' (Articles articles)) #
               (case scrape_articles env 0 (length articles) articles ([], []) of
                  (events, all_comments, articles_with_comments) \<Rightarrow>
                    events @
                    (if all_comments = [] then
                       [Yield (Error_event ''No comments found across any articles'')]
                     else
                       Yield (Result_event ''meta''
                         (Meta [(''keyword'', Str keyword),
                                (''articlesSearched'', Num (length articles)),
                                (''articlesWithComments'', Num (length articles_with_comments)),
                                (''totalComments'', Num (length all_comments)),
                                (''commentsAnalyzed'', Num (min (length all_comments) 200))])) #
                       analyze_in_batches env keyword (length articles_with_comments)
                         all_comments))))"

text \<open>
  \<^verbatim>\<open>section_url.rstrip("/").split("/")[-1].replace("-", " ").title()\<close>, on ASCII letters.
\<close>

definition is_alpha :: "char \<Rightarrow> bool" where
  "is_alpha c =
     (let n = (of_char c :: nat) in (65 \<le> n \<and> n \<le> 90) \<or> (97 \<le> n \<and> n \<le> 122))"

definition upper_char :: "char \<Rightarrow> char" where
  "upper_char c =
     (let n = (of_char c :: nat) in if 97 \<le> n \<and> n \<le> 122 then char_of (n - 32) else c)"

fun title_case :: "bool \<Rightarrow> string \<Rightarrow> string" where
  "title_case inside [] = []"
| "title_case inside (c # cs) =
     (if is_alpha c then (if inside then lower_char c else upper_char c) # title_case True cs
      else c # title_case False cs)"

definition section_name_of :: "string \<Rightarrow> string" where
  "section_name_of section_url =
     title_case False
       (map (\<lambda>c. if c = CHR ''-'' then CHR '' '' else c)
          (rev (takeWhile (\<lambda>c. c \<noteq> CHR ''/'')
             (dropWhile (\<lambda>c. c = CHR ''/'') (rev section_url)))))"

text \<open>\<^verbatim>\<open>generate_section_analysis\<close>.\<close>

definition generate_section_analysis :: "env \<Rightarrow> string \<Rightarrow> nat \<Rightarrow> action list" where
  "generate_section_analysis env section_url limit =
     (if \<not> anthropic_api_key env then
        [Yield (Error_event ''ANTHROPIC_API_KEY environment variable not set.'')]
      else
        Yield (Progress ''searching'' ''Extracting articles from section page...'') #
        (case extract_articles_from_section env section_url limit of
           Inl e \<Rightarrow> [failed e]
         | Inr articles \<Rightarrow>
             if articles = [] then
               [Yield (Error_event ''No articles with comments found on this page'')]
             else
               Yield (Progress ''searching''
                 (''Found '' @ show_nat (length articles) @ '' articles with comments'')) #
               Yield (Result_event ''articles'' (Articles articles)) #
               (case scrape_articles env 0 (length articles) articles ([], []) of
                  (events, all_comments, articles_with_comments) \<Rightarrow>
                    events @
                    (if all_comments = [] then
                       [Yield (Error_event ''No comments found across any articles'')]
                     else
                       Yield (Result_event ''meta''
                         (Meta [(''sectionUrl'', Str section_url),
                                (''sectionName'', Str (section_name_of section_url)),
                                (''articlesFound'', Num (length articles)),
                                (''articlesWithComments'', Num (length articles_with_comments)),
                                (''totalComments'', Num (length all_comments)),
                                (''commentsAnalyzed'', Num (length all_comments))])) #
                       analyze_in_batches env (section_name_of section_url)
                         (length articles_with_comments) all_comments))))"

text \<open>What a trace holds: its service calls, its completion events and its error events.\<close>

fun is_service :: "action \<Rightarrow> bool" where
  "is_service (Service c) = True"
| "is_service a = False"

fun is_complete :: "action \<Rightarrow> bool" where
  "is_complete (Yield (Complete m)) = True"
| "is_complete a = False"

fun is_error :: "action \<Rightarrow> bool" where
  "is_error (Yield (Error_event m)) = True"
| "is_error a = False"

text \<open>An article whose fetch fails or brings no comments.\<close>

definition no_comments :: "env \<Rightarrow> article \<Rightarrow> bool" where
  "no_comments env a =
     (case fetch_all_comments env (short_url a) of
        Inl e \<Rightarrow> True
      | Inr result \<Rightarrow> get (fetched_comments result) [] = [])"

fun is_progress :: "action \<Rightarrow> bool" where
  "is_progress (Yield (Progress step message)) = True"
| "is_progress a = False"



section \<open>Specification-level view of the merge\<close>

text \<open>
  The keys of a list in the order in which they are first seen.
\<close>

definition first_seen :: "'k list \<Rightarrow> 'k list" where
  "first_seen ks = rev (remdups (rev ks))"

text \<open>
  The shape shared by the brand and the recommendation loop: an item whose key is already in
  the dictionary changes the stored entry, a new key appends the entry seeded from the item.
\<close>

definition upsert ::
  "('a \<Rightarrow> 'k) \<Rightarrow> ('a \<Rightarrow> 'v) \<Rightarrow> ('a \<Rightarrow> 'v \<Rightarrow> 'v) \<Rightarrow> 'a \<Rightarrow> ('k, 'v) dict \<Rightarrow> ('k, 'v) dict" where
  "upsert kf sd up x d =
     (if contains (kf x) d then update_entry (kf x) (up x) d else setitem (kf x) (sd x) d)"

text \<open>The entry accumulated from the occurrences of one key, in their order.\<close>

definition accum :: "('a \<Rightarrow> 'v) \<Rightarrow> ('a \<Rightarrow> 'v \<Rightarrow> 'v) \<Rightarrow> 'a list \<Rightarrow> 'v" where
  "accum sd up occ = fold up (tl occ) (sd (hd occ))"

text \<open>The same step on finite maps, where the insertion order is forgotten.\<close>

definition upsert_map ::
  "('a \<Rightarrow> 'k) \<Rightarrow> ('a \<Rightarrow> 'v) \<Rightarrow> ('a \<Rightarrow> 'v \<Rightarrow> 'v) \<Rightarrow> 'a \<Rightarrow> ('k \<rightharpoonup> 'v) \<Rightarrow> ('k \<rightharpoonup> 'v)" where
  "upsert_map kf sd up x m =
     (case m (kf x) of None \<Rightarrow> m(kf x \<mapsto> sd x) | Some v \<Rightarrow> m(kf x \<mapsto> up x v))"

text \<open>The valid results and the items they contribute.\<close>

definition result_brands :: "analysis_result option \<Rightarrow> brand list" where
  "result_brands result =
     (case result of None \<Rightarrow> [] | Some r \<Rightarrow> if skipped result then [] else get (brands r) [])"

definition result_recommendations :: "analysis_result option \<Rightarrow> recommendation list" where
  "result_recommendations result =
     (case result of None \<Rightarrow> []
      | Some r \<Rightarrow> if skipped result then [] else get (recommendations r) [])"

definition result_opportunities :: "analysis_result option \<Rightarrow> opportunity list" where
  "result_opportunities result =
     (case result of None \<Rightarrow> []
      | Some r \<Rightarrow> if skipped result then [] else get (opportunities r) [])"

text \<open>Brands: the normalized key, the seeded entry and the change made by a later occurrence.\<close>

definition brand_key :: "brand \<Rightarrow> string" where
  "brand_key b = lower (get (brand_name b) '''')"

definition seed_brand :: "brand \<Rightarrow> merged_brand" where
  "seed_brand b =
     \<lparr>name = brand_name b, category = get (brand_category b) '''',
      sentiment = get (brand_sentiment b) ''neutral'', mentions = get (brand_mentions b) 1\<rparr>"

definition bump_brand :: "brand \<Rightarrow> merged_brand \<Rightarrow> merged_brand" where
  "bump_brand b e =
     (let e' = e\<lparr>mentions := mentions e + get (brand_mentions b) 1\<rparr> in
      case brand_sentiment b of
        None \<Rightarrow> e'
      | Some s \<Rightarrow> if s = ''positive'' \<or> s = ''negative'' then e'\<lparr>sentiment := s\<rparr> else e')"

definition polarized :: "brand \<Rightarrow> bool" where
  "polarized b \<longleftrightarrow> brand_sentiment b = Some ''positive'' \<or> brand_sentiment b = Some ''negative''"

text \<open>
  The brands of all valid results that have a non-empty normalized name, in the order in which
  the merge meets them.
\<close>

definition named_brands :: "analysis_result option list \<Rightarrow> brand list" where
  "named_brands results = filter (\<lambda>b. brand_key b \<noteq> []) (concat (map result_brands results))"

text \<open>
  The merged entry as the specification words it, from the occurrences \<open>occ\<close> of one
  normalized name: name and category of the first occurrence, the mentions of all
  occurrences added up (1 where absent), and the sentiment of the last later occurrence that
  is positive or negative, or of the first occurrence when there is none.
\<close>

definition spec_brand_entry :: "brand list \<Rightarrow> merged_brand" where
  "spec_brand_entry occ =
     \<lparr>name = brand_name (hd occ),
      category = get (brand_category (hd occ)) '''',
      sentiment = get (brand_sentiment (last (hd occ # filter polarized (tl occ)))) ''neutral'',
      mentions = sum_list (map (\<lambda>b. get (brand_mentions b) 1) occ)\<rparr>"

definition spec_brands :: "analysis_result option list \<Rightarrow> merged_brand list" where
  "spec_brands results =
     (let bs = named_brands results in
      sorted_desc mentions
        (map (\<lambda>k. spec_brand_entry (filter (\<lambda>b. brand_key b = k) bs))
           (first_seen (map brand_key bs))))"


text \<open>
  Opportunities with a non-empty normalized target, in the order in which the merge meets
  them, and the output as the specification words it: for every key in first-seen order the
  first opportunity that has it, unchanged, cut to the first five.
\<close>

definition targeted_opportunities :: "analysis_result option list \<Rightarrow> opportunity list" where
  "targeted_opportunities results =
     filter (\<lambda>opp. fst (opp_key opp) \<noteq> []) (concat (map result_opportunities results))"

definition spec_opportunities :: "analysis_result option list \<Rightarrow> opportunity list" where
  "spec_opportunities results =
     (let opps = targeted_opportunities results in
      take 5 (map (\<lambda>k. hd (filter (\<lambda>opp. opp_key opp = k) opps)) (first_seen (map opp_key opps))))"

text \<open>Recommendations: the normalized key, the seeded entry and the change made later.\<close>

definition rec_key :: "recommendation \<Rightarrow> string" where
  "rec_key r = lower (get (rec_item r) '''')"

definition seed_recommendation :: "recommendation \<Rightarrow> merged_recommendation" where
  "seed_recommendation r =
     \<lparr>item = rec_item r, item_category = get (rec_category r) '''',
      quote = get (rec_quote r) '''', endorsements = get (rec_endorsements r) 1\<rparr>"

definition bump_recommendation :: "recommendation \<Rightarrow> merged_recommendation \<Rightarrow> merged_recommendation"
  where
  "bump_recommendation r e = e\<lparr>endorsements := endorsements e + get (rec_endorsements r) 1\<rparr>"

definition named_recommendations :: "analysis_result option list \<Rightarrow> recommendation list" where
  "named_recommendations results =
     filter (\<lambda>r. rec_key r \<noteq> []) (concat (map result_recommendations results))"


text \<open>Example data.\<close>

definition mk_comment :: "int \<Rightarrow> comment" where
  "mk_comment n = \<lparr>numRecommends = Some n, body = Some ''<p>ok</p>'', displayName = None,
     userId = None, from_article_title = None\<rparr>"

definition nike_neutral :: brand where
  "nike_neutral = \<lparr>brand_name = Some ''Nike'', brand_category = None,
     brand_sentiment = Some ''neutral'', brand_mentions = Some 3\<rparr>"

definition nike_positive :: brand where
  "nike_positive = \<lparr>brand_name = Some ''NIKE'', brand_category = None,
     brand_sentiment = Some ''positive'', brand_mentions = Some 2\<rparr>"

definition brands_result :: "brand list \<Rightarrow> analysis_result option" where
  "brands_result bs = Some \<lparr>error = None, raw = None, brands = Some bs,
     recommendations = None, opportunities = None\<rparr>"

definition nike_partnership :: "string \<Rightarrow> string \<Rightarrow> string \<Rightarrow> opportunity" where
  "nike_partnership target type rationale =
     \<lparr>opp_type = Some type, opp_target = Some target, opp_rationale = Some rationale\<rparr>"

definition untargeted :: opportunity where
  "untargeted = \<lparr>opp_type = Some ''partnership'', opp_target = None,
     opp_rationale = Some ''no target''\<rparr>"

definition opportunities_result :: "opportunity list \<Rightarrow> analysis_result option" where
  "opportunities_result opps = Some \<lparr>error = None, raw = None, brands = None,
     recommendations = None, opportunities = Some opps\<rparr>"

definition error_result :: "analysis_result option" where
  "error_result = Some \<lparr>error = Some ''Failed to parse commercial opportunities'',
     raw = Some ''no json here'', brands = Some [nike_neutral], recommendations = None,
     opportunities = None\<rparr>"

definition rec_of :: "string \<Rightarrow> int \<Rightarrow> recommendation" where
  "rec_of i n = \<lparr>rec_item = Some i, rec_category = None, rec_quote = None,
     rec_endorsements = Some n\<rparr>"

definition recommendations_result :: "recommendation list \<Rightarrow> analysis_result option" where
  "recommendations_result rs = Some \<lparr>error = None, raw = None, brands = None,
     recommendations = Some rs, opportunities = None\<rparr>"

definition nine_recs :: "recommendation list" where
  "nine_recs =
     [rec_of ''a'' 10, rec_of ''b'' 10, rec_of ''c'' 10, rec_of ''d'' 10, rec_of ''e'' 10,
      rec_of ''f'' 10, rec_of ''g'' 10, rec_of ''h'' 10, rec_of ''i'' 9]"

definition an_article :: article where
  "an_article = \<lparr>title = ''Running shoes'', url = ''https://www.theguardian.com/a'',
     short_url = ''/p/abc''\<rparr>"

definition quiet_env :: env where
  "quiet_env =
     \<lparr>anthropic_api_key = True, guardian_api_key = True,
      extract_short_url = (\<lambda>u. Inr ''/p/abc''),
      fetch_all_comments =
        (\<lambda>k. Inr \<lparr>fetched_comments = Some [], discussion_title = Some ''Running shoes''\<rparr>),
      search_articles_by_keyword = (\<lambda>k n. Inr [an_article]),
      extract_articles_from_section = (\<lambda>u n. Inr [an_article]),
      generate_discussion_questions = (\<lambda>t a. Inr ''[]''),
      analyze_sentiment = (\<lambda>t a. Inr ''{}''),
      messages_create = (\<lambda>n p. Inr ''{}''),
      json_loads =
        (\<lambda>s. if s = ''{}'' then Inr (brands_result [nike_neutral]) else Inl ''Expecting value'')\<rparr>"

definition raising_env :: env where
  "raising_env =
     quiet_env\<lparr>messages_create :=
       (\<lambda>n p. if n = 1 then Inl (OtherError ''overloaded'') else Inr ''{}'')\<rparr>"

definition garbled_env :: env where
  "garbled_env =
     quiet_env\<lparr>messages_create := (\<lambda>n p. if n = 1 then Inr ''{oops}'' else Inr ''{}'')\<rparr>"

definition unparsed_env :: env where
  "unparsed_env =
     quiet_env\<lparr>messages_create := (\<lambda>n p. if n = 1 then Inr ''no json'' else Inr ''{}'')\<rparr>"



section \<open>Cleaning is idempotent\<close>

lemma set_tl_dropWhile: "set (tl (dropWhile P xs)) \<subseteq> set xs"
proof -
  have "set (tl (dropWhile P xs)) \<subseteq> set (dropWhile P xs)"
    by (metis list.sel(2) list.set_sel(2) subsetI)
  also have "\<dots> \<subseteq> set xs"
    by (auto dest: set_dropWhileD)
  finally show ?thesis .
qed

lemma set_sub_tags: "set (sub_tags s) \<subseteq> insert (CHR '' '') (set s)"
proof (induction s rule: sub_tags.induct)
  case 1 show ?case by simp
next
  case (2 c cs)
  show ?case
  proof (cases "c = CHR ''<'' \<and> takeWhile (\<lambda>x. x \<noteq> CHR ''>'') cs \<noteq> []
         \<and> dropWhile (\<lambda>x. x \<noteq> CHR ''>'') cs \<noteq> []")
    case True
    with 2(1) set_tl_dropWhile [of "\<lambda>x. x \<noteq> CHR ''>''" cs] show ?thesis by auto
  next
    case False
    with 2(2) show ?thesis by auto
  qed
qed

lemma set_sub_spaces: "set (sub_spaces s) \<subseteq> insert (CHR '' '') (set s)"
proof (induction s rule: sub_spaces.induct)
  case 1 show ?case by simp
next
  case (2 c cs)
  show ?case
  proof (cases "isspace c")
    case True
    with 2(1) show ?thesis by (auto dest: set_dropWhileD)
  next
    case False
    with 2(2) show ?thesis by auto
  qed
qed

lemma no_close_cases:
  "takeWhile (\<lambda>x. x \<noteq> CHR ''>'') cs = [] \<or> dropWhile (\<lambda>x. x \<noteq> CHR ''>'') cs = []
   \<longleftrightarrow> cs = [] \<or> hd cs = CHR ''>'' \<or> CHR ''>'' \<notin> set cs"
  by (cases cs) auto

lemma hd_sub_tags: "cs \<noteq> [] \<Longrightarrow> hd cs = CHR ''>'' \<Longrightarrow> hd (sub_tags cs) = CHR ''>''"
  by (cases cs) auto

lemma sub_tags_Nil: "sub_tags cs = [] \<longleftrightarrow> cs = []"
  by (cases cs) auto

lemma hd_sub_spaces: "cs \<noteq> [] \<Longrightarrow> hd cs = CHR ''>'' \<Longrightarrow> hd (sub_spaces cs) = CHR ''>''"
  by (cases cs) (auto simp: isspace_def)

lemma hd_sub_spaces_nonspace:
  "d = [] \<or> \<not> isspace (hd d) \<Longrightarrow> sub_spaces d = [] \<or> \<not> isspace (hd (sub_spaces d))"
  by (cases d) auto

lemma dropWhile_hd: "xs \<noteq> [] \<Longrightarrow> \<not> P (hd xs) \<Longrightarrow> dropWhile P xs = xs"
  by (cases xs) auto

lemma no_tag_sub_tags: "no_tag (sub_tags s)"
proof (induction s rule: sub_tags.induct)
  case 1 show ?case by simp
next
  case (2 c cs)
  show ?case
  proof (cases "c = CHR ''<'' \<and> takeWhile (\<lambda>x. x \<noteq> CHR ''>'') cs \<noteq> []
         \<and> dropWhile (\<lambda>x. x \<noteq> CHR ''>'') cs \<noteq> []")
    case True
    with 2(1) show ?thesis by simp
  next
    case False
    then have eq: "sub_tags (c # cs) = c # sub_tags cs" by auto
    have "cs = [] \<or> hd cs = CHR ''>'' \<or> CHR ''>'' \<notin> set cs" if "c = CHR ''<''"
      using False that no_close_cases [of cs] by blast
    then have "sub_tags cs = [] \<or> hd (sub_tags cs) = CHR ''>'' \<or> CHR ''>'' \<notin> set (sub_tags cs)"
      if "c = CHR ''<''"
      using that set_sub_tags [of cs] hd_sub_tags [of cs] by (auto simp: sub_tags_Nil)
    with 2(2) False show ?thesis
      unfolding eq no_tag.simps no_close_cases by blast
  qed
qed

lemma no_tag_dropWhile: "no_tag s \<Longrightarrow> no_tag (dropWhile P s)"
  by (induction s) auto

lemma no_tag_sub_spaces: "no_tag s \<Longrightarrow> no_tag (sub_spaces s)"
proof (induction s rule: sub_spaces.induct)
  case 1 show ?case by simp
next
  case (2 c cs)
  show ?case
  proof (cases "isspace c")
    case True
    have "no_tag (dropWhile isspace cs)"
      using 2(3) by (simp add: no_tag_dropWhile)
    with 2(1) True show ?thesis by simp
  next
    case False
    then have eq: "sub_spaces (c # cs) = c # sub_spaces cs" by simp
    from 2(3) have nt: "no_tag cs" and
      c: "c = CHR ''<'' \<Longrightarrow> cs = [] \<or> hd cs = CHR ''>'' \<or> CHR ''>'' \<notin> set cs"
      unfolding no_tag.simps no_close_cases by blast+
    have "sub_spaces cs = [] \<or> hd (sub_spaces cs) = CHR ''>'' \<or> CHR ''>'' \<notin> set (sub_spaces cs)"
      if "c = CHR ''<''"
    proof -
      from c [OF that] consider "cs = []" | "cs \<noteq> []" "hd cs = CHR ''>''" | "CHR ''>'' \<notin> set cs"
        by blast
      then show ?thesis
      proof cases
        case 1 then show ?thesis by simp
      next
        case 2 then show ?thesis by (simp add: hd_sub_spaces)
      next
        case 3 with set_sub_spaces [of cs] show ?thesis by auto
      qed
    qed
    with 2(2) [OF False nt] show ?thesis
      unfolding eq no_tag.simps no_close_cases by blast
  qed
qed

lemma no_tag_prefix: "no_tag (u @ w) \<Longrightarrow> no_tag u"
proof (induction u)
  case Nil show ?case by simp
next
  case (Cons c u)
  from Cons.prems have nt: "no_tag (u @ w)" and
      c: "c = CHR ''<'' \<Longrightarrow> u @ w = [] \<or> hd (u @ w) = CHR ''>'' \<or> CHR ''>'' \<notin> set (u @ w)"
    unfolding append_Cons no_tag.simps no_close_cases by blast+
  have "u = [] \<or> hd u = CHR ''>'' \<or> CHR ''>'' \<notin> set u" if "c = CHR ''<''"
    using c [OF that] by (cases u) auto
  with Cons.IH [OF nt] show ?case
    unfolding no_tag.simps no_close_cases by blast
qed

lemma rev_dropWhile_rev_prefix: "\<exists>w. xs = rev (dropWhile P (rev xs)) @ w"
proof -
  have "rev xs = takeWhile P (rev xs) @ dropWhile P (rev xs)" by simp
  then have "xs = rev (dropWhile P (rev xs)) @ rev (takeWhile P (rev xs))"
    by (metis rev_append rev_rev_ident)
  then show ?thesis ..
qed

lemma no_tag_strip: "no_tag s \<Longrightarrow> no_tag (strip s)"
proof -
  assume "no_tag s"
  then have a: "no_tag (dropWhile isspace s)" by (rule no_tag_dropWhile)
  obtain w where "dropWhile isspace s = strip s @ w"
    unfolding strip_def using rev_dropWhile_rev_prefix by blast
  with a show ?thesis by (metis no_tag_prefix)
qed

lemma sub_tags_id: "no_tag s \<Longrightarrow> sub_tags s = s"
  by (induction s) auto

lemma ws_norm_sub_spaces: "ws_norm (sub_spaces s)"
proof (induction s rule: sub_spaces.induct)
  case 1 show ?case by simp
next
  case (2 c cs)
  show ?case
  proof (cases "isspace c")
    case True
    have "dropWhile isspace cs = [] \<or> \<not> isspace (hd (dropWhile isspace cs))"
      by (metis hd_dropWhile)
    then have "sub_spaces (dropWhile isspace cs) = []
        \<or> \<not> isspace (hd (sub_spaces (dropWhile isspace cs)))"
      by (rule hd_sub_spaces_nonspace)
    with 2(1) True show ?thesis by simp
  next
    case False
    with 2(2) show ?thesis by simp
  qed
qed

lemma ws_norm_dropWhile: "ws_norm s \<Longrightarrow> ws_norm (dropWhile P s)"
  by (induction s) auto

lemma ws_norm_prefix: "ws_norm (u @ w) \<Longrightarrow> ws_norm u"
proof (induction u)
  case Nil show ?case by simp
next
  case (Cons c u)
  then show ?case by (cases u) auto
qed

lemma ws_norm_strip: "ws_norm s \<Longrightarrow> ws_norm (strip s)"
proof -
  assume "ws_norm s"
  then have a: "ws_norm (dropWhile isspace s)" by (rule ws_norm_dropWhile)
  obtain w where "dropWhile isspace s = strip s @ w"
    unfolding strip_def using rev_dropWhile_rev_prefix by blast
  with a show ?thesis by (metis ws_norm_prefix)
qed

lemma sub_spaces_id: "ws_norm s \<Longrightarrow> sub_spaces s = s"
proof (induction s)
  case Nil show ?case by simp
next
  case (Cons c cs)
  then show ?case by (cases cs) auto
qed

lemma strip_no_edge_space:
  "strip s = [] \<or> (\<not> isspace (hd (strip s)) \<and> \<not> isspace (last (strip s)))"
proof (cases "strip s = []")
  case True then show ?thesis ..
next
  case False
  let ?d = "dropWhile isspace s"
  let ?r = "dropWhile isspace (rev ?d)"
  from False have r: "?r \<noteq> []" by (simp add: strip_def)
  then have d: "?d \<noteq> []" by (metis dropWhile.simps(1) rev_is_Nil_conv)
  have l: "\<not> isspace (hd ?r)" using r by (metis hd_dropWhile)
  have "last (strip s) = hd ?r" using r by (simp add: strip_def last_rev)
  moreover have "hd (strip s) = hd ?d"
  proof -
    obtain w where w: "?d = strip s @ w"
      unfolding strip_def using rev_dropWhile_rev_prefix by blast
    with False show ?thesis by (metis hd_append2)
  qed
  moreover have "\<not> isspace (hd ?d)" using d by (metis hd_dropWhile)
  ultimately show ?thesis using l by simp
qed

lemma strip_id: "s = [] \<or> (\<not> isspace (hd s) \<and> \<not> isspace (last s)) \<Longrightarrow> strip s = s"
proof (cases s)
  case Nil then show ?thesis by (simp add: strip_def)
next
  case (Cons c cs)
  assume "s = [] \<or> (\<not> isspace (hd s) \<and> \<not> isspace (last s))"
  with Cons have h: "\<not> isspace c" and l: "\<not> isspace (last s)" by auto
  from h Cons have "dropWhile isspace s = s" by simp
  moreover have "dropWhile isspace (rev s) = rev s"
  proof (rule dropWhile_hd)
    show "rev s \<noteq> []" using Cons by simp
    show "\<not> isspace (hd (rev s))" using l by (simp add: hd_rev)
  qed
  ultimately show ?thesis by (simp add: strip_def)
qed

lemma strip_strip: "strip (strip s) = strip s"
  using strip_no_edge_space [of s] by (rule strip_id)

text \<open>
  Claim C10. Cleaning a comment body is idempotent: for every string \<open>s\<close>, cleaning the
  cleaned text gives the cleaned text again. After the first pass no tag match is left (a
  remaining \<open><\<close> is directly followed by \<open>>\<close> or has no \<open>>\<close> after it), every whitespace
  run is a single space and the text has no whitespace at either end, so each of the three
  steps leaves it as it is.
\<close>

theorem clean_html_idempotent: "clean_html (clean_html s) = clean_html s"
proof -
  let ?t = "sub_spaces (sub_tags s)"
  have nt: "no_tag (strip ?t)"
    by (intro no_tag_strip no_tag_sub_spaces no_tag_sub_tags)
  have ws: "ws_norm (strip ?t)"
    by (intro ws_norm_strip ws_norm_sub_spaces)
  have "clean_html (clean_html s) = strip (sub_spaces (sub_tags (strip ?t)))"
    by (simp add: clean_html_def)
  also have "\<dots> = strip (sub_spaces (strip ?t))"
    by (simp only: sub_tags_id [OF nt])
  also have "\<dots> = strip (strip ?t)"
    by (simp only: sub_spaces_id [OF ws])
  also have "\<dots> = strip ?t" by (rule strip_strip)
  finally show ?thesis by (simp add: clean_html_def)
qed


section \<open>Selection and batching\<close>

lemma length_sorted_desc: "length (sorted_desc f xs) = length xs"
  by (simp add: sorted_desc_def)

lemma every_nth_index:
  "0 < step \<Longrightarrow> i * step < length xs \<Longrightarrow>
     i < length (every_nth step xs) \<and> every_nth step xs ! i = xs ! (i * step)"
proof (induction step xs arbitrary: i rule: every_nth.induct)
  case (1 step)
  then show ?case by simp
next
  case (2 step x xs)
  show ?case
  proof (cases i)
    case 0
    then show ?thesis by simp
  next
    case (Suc j)
    with 2(3) have lt: "j * step + step < Suc (length xs)" by (simp add: add.commute)
    with 2(2) have j: "j * step < length (drop (step - 1) xs)" by simp
    have le: "step - 1 + j * step \<le> length xs" using lt 2(2) by simp
    from 2(1) [OF 2(2) j] have ih: "j < length (every_nth step (drop (step - 1) xs))"
      "every_nth step (drop (step - 1) xs) ! j = drop (step - 1) xs ! (j * step)" by simp_all
    have "(x # xs) ! (Suc j * step) = xs ! (step - 1 + j * step)"
      using 2(2) by (cases step) (simp_all add: ac_simps)
    then show ?thesis using ih Suc le lt 2(2) by simp
  qed
qed

lemma range_from_done: "stop \<le> i \<Longrightarrow> range_from i stop step = []"
  by (subst range_from.simps) simp

lemma range_from_more:
  "0 < step \<Longrightarrow> i < stop \<Longrightarrow> range_from i stop step = i # range_from (i + step) stop step"
  by (subst range_from.simps) simp

lemma concat_batches:
  "0 < b \<Longrightarrow> concat (map (\<lambda>i. take b (drop i xs)) (range_from i (length xs) b)) = drop i xs"
proof (induction i "length xs" b rule: range_from.induct)
  case (1 i step)
  show ?case
  proof (cases "length xs \<le> i")
    case True
    then show ?thesis by (simp add: range_from_done)
  next
    case False
    with 1 have "concat (map (\<lambda>i. take step (drop i xs)) (range_from (i + step) (length xs) step))
       = drop (i + step) xs" by simp
    with False 1(2) show ?thesis
      by (simp add: range_from_more add.commute [of i step] flip: drop_drop)
  qed
qed

lemma range_from_nth:
  "0 < b \<Longrightarrow> i + k * b < n \<Longrightarrow> k < length (range_from i n b) \<and> range_from i n b ! k = i + k * b"
proof (induction i n b arbitrary: k rule: range_from.induct)
  case (1 i stop step)
  show ?case
  proof (cases k)
    case 0
    with 1(2,3) show ?thesis by (simp add: range_from_more)
  next
    case (Suc j)
    from 1(3) Suc have lt: "i + step + j * step < stop" by (simp add: add.assoc)
    then have "\<not> (step = 0 \<or> stop \<le> i)" using 1(2) by simp
    from 1(1) [OF this 1(2) lt] this Suc show ?thesis
      by (simp add: range_from_more add.assoc)
  qed
qed

lemma length_range_from:
  "0 < b \<Longrightarrow> length (range_from i n b) = (n - i + b - 1) div b"
proof (induction i n b rule: range_from.induct)
  case (1 i stop step)
  show ?case
  proof (cases "stop \<le> i")
    case True
    with 1(2) show ?thesis by (simp add: range_from_done)
  next
    case False
    then have "\<not> (step = 0 \<or> stop \<le> i)" using 1(2) by simp
    from 1(1) [OF this 1(2)] have ih: "length (range_from (i + step) stop step) = (stop - (i + step) + step - 1) div step" .
    have "(stop - i + step - 1) div step = Suc ((stop - (i + step) + step - 1) div step)"
    proof (cases "stop - i \<le> step")
      case True
      with False 1(2) have "(stop - i + step - 1) div step = 1"
        by (intro div_nat_eqI) auto
      moreover from True have "(stop - (i + step) + step - 1) div step = 0" using 1(2) by simp
      ultimately show ?thesis by simp
    next
      case b: False
      define a where "a = stop - (i + step) + step - 1"
      have "stop - i + step - 1 = a + step" using b by (simp add: a_def)
      then have "(stop - i + step - 1) div step = (a + step) div step" by (rule arg_cong)
      also have "\<dots> = Suc (a div step)" using 1(2) div_add_self2 [of step a] by simp
      finally show ?thesis by (simp only: a_def)
    qed
    with ih False 1(2) show ?thesis by (simp add: range_from_more)
  qed
qed


text \<open>
  Claim C4. For a comment list of size \<open>N\<close> and a batch size \<open>B \<ge> 1\<close> the batching returns
  \<open>ceil (N / B) = (N + B - 1) div B\<close> batches; every batch but the last has exactly \<open>B\<close>
  comments, the last has \<open>N - B * (ceil (N / B) - 1)\<close>; the concatenation of the batches is the
  input sorted descending by its recommendation count (stable); no comments give no batches.
\<close>

theorem split_batches_partition:
  assumes "1 \<le> B"
  shows "\<exists>bs. split_batches comments B = Inr bs
     \<and> length bs = (length comments + B - 1) div B
     \<and> (\<forall>k. Suc k < length bs \<longrightarrow> length (bs ! k) = B)
     \<and> (bs \<noteq> [] \<longrightarrow> length (last bs) = length comments - B * (length bs - 1))
     \<and> concat bs = sorted_desc recommends comments
     \<and> (comments = [] \<longrightarrow> bs = [])"
proof -
  let ?s = "sorted_desc recommends comments"
  let ?n = "length comments"
  let ?bs = "map (\<lambda>i. take B (drop i ?s)) (range_from 0 (length ?s) B)"
  from assms have B: "0 < B" by simp
  have run: "split_batches comments B = Inr ?bs"
    using B by (simp add: split_batches_def range_step_def Let_def)
  have len: "length ?bs = (?n + B - 1) div B"
    using length_range_from [OF B, of 0 "length ?s"] by (simp add: length_sorted_desc)
  have idx: "k < length ?bs \<Longrightarrow> k * B < ?n" for k
  proof -
    assume "k < length ?bs"
    with len have "Suc k \<le> (?n + B - 1) div B" by simp
    then have "Suc k * B \<le> ?n + B - 1" using B by (simp add: less_eq_div_iff_mult_less_eq)
    then show "k * B < ?n" using B by simp
  qed
  have nth: "?bs ! k = take B (drop (k * B) ?s)" if "k < length ?bs" for k
    using range_from_nth [OF B, of 0 k "length ?s"] idx [OF that] that
    by (simp add: length_sorted_desc)
  have full: "length (?bs ! k) = B" if "Suc k < length ?bs" for k
  proof -
    from idx [OF that] have "k * B + B < ?n" by simp
    moreover have "k < length ?bs" using that by simp
    ultimately show ?thesis using nth [of k] by (simp add: length_sorted_desc)
  qed
  have lst: "length (last ?bs) = ?n - B * (length ?bs - 1)" if "?bs \<noteq> []"
  proof -
    from that have k: "length ?bs - 1 < length ?bs" by simp
    have "last ?bs = ?bs ! (length ?bs - 1)" using that by (rule last_conv_nth)
    also have "\<dots> = take B (drop ((length ?bs - 1) * B) ?s)" using nth [OF k] .
    finally have "length (last ?bs) = min B (?n - (length ?bs - 1) * B)"
      by (simp add: length_sorted_desc min.commute)
    moreover have "?n \<le> length ?bs * B"
    proof -
      have "?n + B - 1 < (Suc ((?n + B - 1) div B)) * B"
        using B by (metis dividend_less_times_div mult.commute mult_Suc)
      then show ?thesis using len B by simp
    qed
    then have "?n - (length ?bs - 1) * B \<le> B"
      using that by (cases "length ?bs") (simp_all add: algebra_simps)
    ultimately show ?thesis by (simp add: mult.commute)
  qed
  have cat: "concat ?bs = ?s"
    using concat_batches [OF B, of ?s 0] by simp
  have emp: "comments = [] \<Longrightarrow> ?bs = []"
    by (simp add: sorted_desc_def range_from_done)
  show ?thesis using run len full lst cat emp by (intro exI [of _ ?bs] conjI allI impI)
qed


lemma sorted_desc_descending:
  "i \<le> j \<Longrightarrow> j < length xs \<Longrightarrow> f (sorted_desc f xs ! j) \<le> f (sorted_desc f xs ! i)"
proof -
  assume ij: "i \<le> j" and j: "j < length xs"
  have "sorted (map (\<lambda>x. - f x) (sorted_desc f xs))"
    by (simp add: sorted_desc_def)
  then have "map (\<lambda>x. - f x) (sorted_desc f xs) ! i \<le> map (\<lambda>x. - f x) (sorted_desc f xs) ! j"
    using ij j by (intro sorted_nth_mono) (simp_all add: length_sorted_desc)
  then show ?thesis using ij j by (simp add: length_sorted_desc)
qed

lemma sorted_desc_stable:
  "filter (\<lambda>x. f x = k) (sorted_desc f xs) = filter (\<lambda>x. f x = k) xs"
proof -
  have "filter (\<lambda>x. - f x = - k) (sort_key (\<lambda>x. - f x) xs) = filter (\<lambda>x. - f x = - k) xs"
    by (rule sort_key_stable)
  then show ?thesis by (simp add: sorted_desc_def)
qed

lemma set_sorted_desc: "set (sorted_desc f xs) = set xs"
  by (simp add: sorted_desc_def)

lemma sorted_desc_Nil: "sorted_desc f xs = [] \<longleftrightarrow> xs = []"
  by (metis length_0_conv length_sorted_desc)

lemma half_budget:
  assumes "2 \<le> (m::nat)" "m < n"
  shows "0 < m div 2" "m div 2 < n - m div 2" "m div 2 \<le> n"
  using assms by auto

text \<open>
  Claim C3, amended. For a budget \<open>max_comments \<ge> 2\<close> and a comment list longer than the
  budget, the selection has exactly \<open>2 * (max_comments div 2)\<close> comments (the budget when it
  is even, one less when it is odd); its first \<open>max_comments div 2\<close> elements are the head of
  the list sorted descending by recommendation count, and the following
  \<open>max_comments div 2\<close> elements are the elements of the remainder at the indices
  \<open>0, step, 2 * step, ...\<close> for \<open>step = length remainder div (max_comments div 2)\<close>. The
  remainder is always larger than the half budget here, so the stride-1 branch is not taken.
\<close>

theorem select_comments_over_budget:
  assumes "2 \<le> max_comments" and "max_comments < length comments"
  shows "\<exists>selected. select_comments comments max_comments = Inr selected
     \<and> length selected = 2 * (max_comments div 2)
     \<and> take (max_comments div 2) selected
         = take (max_comments div 2) (sorted_desc recommends comments)
     \<and> (\<forall>i < max_comments div 2.
           selected ! (max_comments div 2 + i)
             = drop (max_comments div 2) (sorted_desc recommends comments)
                 ! (i * ((length comments - max_comments div 2) div (max_comments div 2))))"
proof -
  let ?s = "sorted_desc recommends comments"
  let ?h = "max_comments div 2"
  let ?rem = "drop ?h ?s"
  let ?step = "length ?rem div ?h"
  let ?sel = "take ?h ?s @ take ?h (every_nth ?step ?rem)"
  note hb = half_budget [OF assms]
  have lrem: "length ?rem = length comments - ?h"
    by (simp add: length_sorted_desc)
  have step: "0 < ?step"
    using hb by (simp add: length_sorted_desc div_greater_zero_iff)
  have run: "select_comments comments max_comments = Inr ?sel"
    using assms hb step
    by (simp add: select_comments_def Let_def length_sorted_desc floordiv_def slice_step_def)
  have inside: "i * ?step < length ?rem" if "i < ?h" for i
  proof -
    from that have "Suc i * ?step \<le> ?h * ?step" by (intro mult_le_mono1) simp
    also have "\<dots> \<le> length ?rem" by (simp add: mult.commute)
    finally show ?thesis using step by simp
  qed
  have enough: "?h \<le> length (every_nth ?step ?rem)"
  proof -
    from hb have "?h - 1 < ?h" by simp
    from every_nth_index [OF step inside [OF this], THEN conjunct1] hb(1)
    show ?thesis by linarith
  qed
  have len: "length ?sel = 2 * ?h"
    using enough hb by (simp add: length_sorted_desc)
  have top: "take ?h ?sel = take ?h ?s"
    using hb by (simp add: length_sorted_desc)
  have sample: "?sel ! (?h + i) = ?rem ! (i * ?step)" if "i < ?h" for i
  proof -
    have "?sel ! (?h + i) = take ?h (every_nth ?step ?rem) ! i"
      using hb by (simp add: nth_append length_sorted_desc)
    also have "\<dots> = every_nth ?step ?rem ! i" using that by simp
    also have "\<dots> = ?rem ! (i * ?step)"
      using every_nth_index [OF step inside [OF that]] by simp
    finally show ?thesis .
  qed
  have "\<forall>i < ?h. ?sel ! (?h + i) = ?rem ! (i * ((length comments - ?h) div ?h))"
    using sample by (simp add: length_sorted_desc)
  with run len top show ?thesis by (intro exI [of _ ?sel] conjI)
qed

lemma select_comments_within_budget:
  "length comments \<le> max_comments \<Longrightarrow>
     select_comments comments max_comments = Inr (sorted_desc recommends comments)"
  by (simp add: select_comments_def Let_def length_sorted_desc)

lemma select_comments_zero_division:
  "max_comments < 2 \<Longrightarrow> max_comments < length comments \<Longrightarrow>
     select_comments comments max_comments
       = Inl (ZeroDivisionError ''integer division or modulo by zero'')"
  by (cases max_comments) (auto simp: select_comments_def Let_def length_sorted_desc floordiv_def sorted_desc_Nil)

text \<open>
  Claim C9. With an empty comment list the selection is empty for every budget. With the
  budget 0 and a non-empty list the code divides by \<open>0 // 2 = 0\<close> and raises
  \<^verbatim>\<open>ZeroDivisionError\<close>, where the claim promises the empty sequence.
\<close>

theorem select_empty_budget_raises:
  "select_comments [mk_comment 5] 0 = Inl (ZeroDivisionError ''integer division or modulo by zero'')
   \<and> (\<forall>max_comments. select_comments [] max_comments = Inr [])"
  by (simp add: select_comments_zero_division select_comments_within_budget sorted_desc_def)

text \<open>
  Claim C3 as stated fails: four comments and the budget 3 give two comments, not three.
\<close>

theorem select_odd_budget_counterexample:
  "3 < length (map mk_comment [5, 9, 7, 1])
   \<and> select_comments (map mk_comment [5, 9, 7, 1]) 3 = Inr (map mk_comment [9, 7])
   \<and> length (map mk_comment [9, 7]) \<noteq> 3"
  by (simp add: select_comments_def sorted_desc_def recommends_def get_def mk_comment_def
      floordiv_def slice_step_def numeral_3_eq_3)

theorem select_comments_over_budget_witness:
  "(2::nat) \<le> 4 \<and> 4 < length (map mk_comment [5, 9, 7, 1, 3, 4, 8])
   \<and> (\<exists>selected. select_comments (map mk_comment [5, 9, 7, 1, 3, 4, 8]) 4 = Inr selected
        \<and> length selected = 4)"
  using select_comments_over_budget [of 4 "map mk_comment [5, 9, 7, 1, 3, 4, 8]"] by auto

theorem split_batches_partition_witness:
  "(1::nat) \<le> 3
   \<and> (\<exists>bs. split_batches (map mk_comment [5, 9, 7, 1, 3, 4, 8]) 3 = Inr bs
        \<and> length bs = 3
        \<and> concat bs = sorted_desc recommends (map mk_comment [5, 9, 7, 1, 3, 4, 8]))"
  using split_batches_partition [of 3 "map mk_comment [5, 9, 7, 1, 3, 4, 8]"] by auto


section \<open>Properties of the merge\<close>

subsection \<open>Insertion-ordered dictionaries\<close>

lemma contains_iff: "contains k d \<longleftrightarrow> k \<in> fst ` set d"
  by (simp add: contains_def map_of_eq_None_iff)

lemma setitem_absent: "\<not> contains k d \<Longrightarrow> setitem k v d = d @ [(k, v)]"
  by (induction d) (auto simp: contains_iff)

lemma keys_update_entry: "map fst (update_entry k f d) = map fst d"
  by (simp add: update_entry_def comp_def if_distrib cong: if_cong)

lemma keys_upsert:
  "map fst (upsert kf sd up x d) = (if contains (kf x) d then map fst d else map fst d @ [kf x])"
  by (simp add: upsert_def keys_update_entry setitem_absent)

lemma set_first_seen: "set (first_seen ks) = set ks"
  by (simp add: first_seen_def)

lemma distinct_first_seen: "distinct (first_seen ks)"
  by (simp add: first_seen_def)

lemma first_seen_snoc:
  "first_seen (ks @ [k]) = (if k \<in> set ks then first_seen ks else first_seen ks @ [k])"
  by (simp add: first_seen_def)

lemma first_seen_Nil: "first_seen [] = []"
  by (simp add: first_seen_def)

lemma accum_single: "accum sd up [x] = sd x"
  by (simp add: accum_def)

lemma accum_snoc: "occ \<noteq> [] \<Longrightarrow> accum sd up (occ @ [x]) = up x (accum sd up occ)"
  by (cases occ) (simp_all add: accum_def)

lemma fold_upsert:
  "fold (upsert kf sd up) xs [] =
     map (\<lambda>k. (k, accum sd up (filter (\<lambda>x. kf x = k) xs))) (first_seen (map kf xs))"
proof (induction xs rule: rev_induct)
  case Nil
  show ?case by (simp add: first_seen_Nil)
next
  case (snoc x xs)
  let ?A = "\<lambda>ys k. accum sd up (filter (\<lambda>x. kf x = k) ys)"
  let ?D = "map (\<lambda>k. (k, ?A xs k)) (first_seen (map kf xs))"
  have c: "contains (kf x) ?D \<longleftrightarrow> kf x \<in> kf ` set xs"
    by (simp add: contains_iff image_image set_first_seen)
  show ?case
  proof (cases "kf x \<in> kf ` set xs")
    case True
    have "update_entry (kf x) (up x) ?D = map (\<lambda>k. (k, ?A (xs @ [x]) k)) (first_seen (map kf xs))"
    proof -
      have "(if k = kf x then (k, up x (?A xs k)) else (k, ?A xs k)) = (k, ?A (xs @ [x]) k)"
        if "k \<in> set (first_seen (map kf xs))" for k
      proof (cases "k = kf x")
        case k: True
        from True obtain y where "y \<in> set xs" "kf y = kf x" by auto
        then have "filter (\<lambda>z. kf z = kf x) xs \<noteq> []"
          by (auto simp: filter_empty_conv)
        then show ?thesis using k by (simp add: accum_snoc)
      next
        case False
        then show ?thesis by auto
      qed
      then have "map (\<lambda>k. if k = kf x then (k, up x (?A xs k)) else (k, ?A xs k))
                  (first_seen (map kf xs))
               = map (\<lambda>k. (k, ?A (xs @ [x]) k)) (first_seen (map kf xs))"
        by (intro map_cong refl)
      moreover have "update_entry (kf x) (up x) ?D
               = map (\<lambda>k. if k = kf x then (k, up x (?A xs k)) else (k, ?A xs k))
                  (first_seen (map kf xs))"
        by (simp add: update_entry_def comp_def)
      ultimately show ?thesis by (simp only:)
    qed
    with True c snoc show ?thesis by (simp add: upsert_def first_seen_snoc)
  next
    case False
    then have e: "filter (\<lambda>z. kf z = kf x) xs = []"
      unfolding filter_empty_conv by (metis imageI)
    have "?A (xs @ [x]) k = ?A xs k" if "k \<in> set (first_seen (map kf xs))" for k
    proof -
      from that False have "kf x \<noteq> k" by (auto simp: set_first_seen)
      then show ?thesis by simp
    qed
    then have "map (\<lambda>k. (k, ?A (xs @ [x]) k)) (first_seen (map kf xs)) = ?D" by simp
    moreover have "?A (xs @ [x]) (kf x) = sd x" using e by (simp add: accum_single)
    ultimately show ?thesis
      using False c snoc by (simp add: upsert_def first_seen_snoc setitem_absent)
  qed
qed

subsection \<open>The merge as three independent folds\<close>

lemma merge_result_items:
  "merge_result result st =
     \<lparr>merged_brands = fold merge_brand (result_brands result) (merged_brands st),
      merged_recommendations =
        fold merge_recommendation (result_recommendations result) (merged_recommendations st),
      merged_opportunities =
        fold merge_opportunity (result_opportunities result) (merged_opportunities st)\<rparr>"
proof (cases result)
  case None
  then show ?thesis
    by (simp add: merge_result_def result_brands_def result_recommendations_def
        result_opportunities_def)
next
  case (Some r)
  then show ?thesis
    by (cases "skipped (Some r)")
       (simp_all add: merge_result_def result_brands_def result_recommendations_def
          result_opportunities_def)
qed

lemma merge_result_fields:
  "merged_brands (merge_result result st)
     = fold merge_brand (result_brands result) (merged_brands st)"
  "merged_recommendations (merge_result result st)
     = fold merge_recommendation (result_recommendations result) (merged_recommendations st)"
  "merged_opportunities (merge_result result st)
     = fold merge_opportunity (result_opportunities result) (merged_opportunities st)"
  by (simp_all add: merge_result_items [of result st])

lemma fold_merge_result:
  "fold merge_result results st =
     \<lparr>merged_brands = fold merge_brand (concat (map result_brands results)) (merged_brands st),
      merged_recommendations =
        fold merge_recommendation (concat (map result_recommendations results))
          (merged_recommendations st),
      merged_opportunities =
        fold merge_opportunity (concat (map result_opportunities results))
          (merged_opportunities st)\<rparr>"
proof (induction results arbitrary: st)
  case Nil
  show ?case by simp
next
  case (Cons r rs)
  have "fold merge_result (r # rs) st = fold merge_result rs (merge_result r st)" by simp
  also note Cons [of "merge_result r st"]
  finally show ?case by (simp add: merge_result_fields)
qed

lemma merge_brand_upsert:
  "merge_brand b d =
     (if brand_key b = [] then d else upsert brand_key seed_brand bump_brand b d)"
proof -
  have "(\<lambda>e. let e' = e\<lparr>mentions := mentions e + get (brand_mentions b) 1\<rparr> in
             case brand_sentiment b of
               None \<Rightarrow> e'
             | Some s \<Rightarrow> if s = ''positive'' \<or> s = ''negative'' then e'\<lparr>sentiment := s\<rparr> else e')
        = bump_brand b"
    by (rule ext) (simp add: bump_brand_def)
  then show ?thesis
    unfolding merge_brand_def upsert_def brand_key_def seed_brand_def by (simp add: Let_def)
qed

lemma bump_brand_eq:
  "bump_brand x e =
     e\<lparr>mentions := mentions e + get (brand_mentions x) 1,
       sentiment := (if polarized x then get (brand_sentiment x) ''neutral'' else sentiment e)\<rparr>"
  by (cases "brand_sentiment x") (auto simp: bump_brand_def polarized_def get_def Let_def)

lemma fold_merge_brand:
  "fold merge_brand bs d =
     fold (upsert brand_key seed_brand bump_brand) (filter (\<lambda>b. brand_key b \<noteq> []) bs) d"
  by (induction bs arbitrary: d) (simp_all add: merge_brand_upsert)

lemma fold_bump_brand:
  "fold bump_brand rest (seed_brand b) =
     \<lparr>name = brand_name b,
      category = get (brand_category b) '''',
      sentiment = get (brand_sentiment (last (b # filter polarized rest))) ''neutral'',
      mentions = sum_list (map (\<lambda>b. get (brand_mentions b) 1) (b # rest))\<rparr>"
proof (induction rest rule: rev_induct)
  case Nil
  show ?case by (simp add: seed_brand_def)
next
  case (snoc x rest)
  have "fold bump_brand (rest @ [x]) (seed_brand b)
          = bump_brand x (fold bump_brand rest (seed_brand b))" by simp
  also note snoc
  finally show ?case by (simp add: bump_brand_eq)
qed

lemma accum_brand:
  "occ \<noteq> [] \<Longrightarrow> accum seed_brand bump_brand occ = spec_brand_entry occ"
  by (cases occ) (simp_all add: accum_def fold_bump_brand spec_brand_entry_def)

lemma merged_brands_spec:
  "merged_brands (fold merge_result results
       \<lparr>merged_brands = [], merged_recommendations = [], merged_opportunities = []\<rparr>)
   = map (\<lambda>k. (k, spec_brand_entry (filter (\<lambda>b. brand_key b = k) (named_brands results))))
       (first_seen (map brand_key (named_brands results)))"
proof -
  let ?bs = "named_brands results"
  have "k \<in> set (first_seen (map brand_key ?bs)) \<Longrightarrow> filter (\<lambda>b. brand_key b = k) ?bs \<noteq> []" for k
    by (auto simp: set_first_seen filter_empty_conv)
  then have "map (\<lambda>k. (k, accum seed_brand bump_brand (filter (\<lambda>b. brand_key b = k) ?bs)))
          (first_seen (map brand_key ?bs))
      = map (\<lambda>k. (k, spec_brand_entry (filter (\<lambda>b. brand_key b = k) ?bs)))
          (first_seen (map brand_key ?bs))"
    by (intro map_cong refl) (simp add: accum_brand)
  then show ?thesis
    by (simp add: fold_merge_result fold_merge_brand fold_upsert named_brands_def)
qed


text \<open>
  Claim C1. The brands of the merged result are the entries of \<open>spec_brands\<close>: one entry for
  every normalized (lower-cased) non-empty brand name of the valid results, seeded by the first
  occurrence (name as originally cased, category, sentiment, mentions, with the defaults
  \<open>''''\<close>, \<open>neutral\<close> and 1), with the mentions of every later occurrence added (1 where
  absent) and the sentiment overwritten exactly by the later occurrences whose sentiment is
  \<open>positive\<close> or \<open>negative\<close>; the list is sorted descending by the total mentions, ties in
  first-seen order (\<open>sorted_desc\<close> is stable, the keys are listed by \<open>first_seen\<close>).
  Merging \<open>Nike\<close> (3 mentions, neutral) and then \<open>NIKE\<close> (2 mentions, positive) gives the single
  entry \<open>Nike\<close> with 5 mentions and the sentiment \<open>positive\<close> (and the default category).
\<close>

theorem merge_brands_spec:
  "out_brands (merge_commercial_results results) = spec_brands results
   \<and> out_brands (merge_commercial_results [brands_result [nike_neutral], brands_result [nike_positive]])
       = [\<lparr>name = Some ''Nike'', category = '''', sentiment = ''positive'', mentions = 5\<rparr>]"
proof
  show "out_brands (merge_commercial_results results) = spec_brands results"
    by (simp add: merge_commercial_results_def Let_def merged_brands_spec spec_brands_def
        dict_values_def comp_def)
  show "out_brands (merge_commercial_results [brands_result [nike_neutral], brands_result [nike_positive]])
       = [\<lparr>name = Some ''Nike'', category = '''', sentiment = ''positive'', mentions = 5\<rparr>]"
    by code_simp
qed

subsection \<open>Opportunities\<close>

lemma update_entry_same: "update_entry k (\<lambda>e. e) d = d"
  by (induction d) (auto simp: update_entry_def)

lemma merge_opportunity_upsert:
  "merge_opportunity opp d =
     (if fst (opp_key opp) = [] then d else upsert opp_key (\<lambda>opp. opp) (\<lambda>opp e. e) opp d)"
  by (simp add: merge_opportunity_def upsert_def update_entry_same Let_def)

lemma fold_merge_opportunity:
  "fold merge_opportunity opps d =
     fold (upsert opp_key (\<lambda>opp. opp) (\<lambda>opp e. e))
       (filter (\<lambda>opp. fst (opp_key opp) \<noteq> []) opps) d"
  by (induction opps arbitrary: d) (simp_all add: merge_opportunity_upsert)

lemma accum_first: "accum (\<lambda>x. x) (\<lambda>x e. e) occ = hd occ"
proof -
  have "fold (\<lambda>x e. e) xs v = v" for xs :: "'a list" and v :: 'a
    by (induction xs) simp_all
  then show ?thesis by (simp add: accum_def)
qed

lemma merge_unfold:
  "merge_commercial_results results =
     \<lparr>out_brands =
        sorted_desc mentions
          (dict_values (fold merge_brand (concat (map result_brands results)) [])),
      out_recommendations =
        take 8 (sorted_desc endorsements
          (dict_values (fold merge_recommendation (concat (map result_recommendations results)) []))),
      out_opportunities =
        take 5 (dict_values (fold merge_opportunity (concat (map result_opportunities results)) []))\<rparr>"
  by (simp add: merge_commercial_results_def Let_def fold_merge_result)

text \<open>
  Claim C8. The opportunities of the merged result are those of \<open>spec_opportunities\<close>: the
  key of an opportunity is the pair of its lower-cased target and type; an opportunity whose
  normalized target is empty or missing never enters; for every key the first opportunity that
  has it is kept unchanged and later ones are dropped; the output is in first-seen order, cut
  to the first five. Two opportunities for (Nike, partnership) with different rationales leave
  only the first.
\<close>

theorem merge_opportunities_spec:
  "out_opportunities (merge_commercial_results results) = spec_opportunities results
   \<and> out_opportunities (merge_commercial_results
        [opportunities_result [nike_partnership ''Nike'' ''partnership'' ''first'', untargeted],
         opportunities_result [nike_partnership ''NIKE'' ''Partnership'' ''second'']])
       = [nike_partnership ''Nike'' ''partnership'' ''first'']"
proof
  show "out_opportunities (merge_commercial_results results) = spec_opportunities results"
    by (simp add: merge_unfold fold_merge_opportunity fold_upsert accum_first
        spec_opportunities_def targeted_opportunities_def dict_values_def comp_def Let_def)
  show "out_opportunities (merge_commercial_results
        [opportunities_result [nike_partnership ''Nike'' ''partnership'' ''first'', untargeted],
         opportunities_result [nike_partnership ''NIKE'' ''Partnership'' ''second'']])
       = [nike_partnership ''Nike'' ''partnership'' ''first'']"
    by code_simp
qed

subsection \<open>Results that are skipped\<close>

lemma skipped_items:
  "skipped r \<Longrightarrow> result_brands r = []"
  "skipped r \<Longrightarrow> result_recommendations r = []"
  "skipped r \<Longrightarrow> result_opportunities r = []"
  by (cases r; simp add: result_brands_def result_recommendations_def result_opportunities_def)+

lemma concat_unskipped:
  assumes "\<And>r. skipped r \<Longrightarrow> f r = []"
  shows "concat (map f (filter (\<lambda>r. \<not> skipped r) results)) = concat (map f results)"
  by (induction results) (simp_all add: assms)

text \<open>
  Claim C6. When every element of the sequence is skipped (it is \<^verbatim>\<open>None\<close>, an empty
  dictionary, or carries the key \<^verbatim>\<open>error\<close>), which includes the empty sequence, the merge is
  the canonical empty result. Skipped elements contribute nothing: the merge of a sequence is
  the merge of its elements that are not skipped.
\<close>

theorem merge_skips_invalid:
  "((\<forall>r \<in> set results. skipped r) \<longrightarrow> merge_commercial_results results = empty_result)
   \<and> merge_commercial_results results
       = merge_commercial_results (filter (\<lambda>r. \<not> skipped r) results)"
proof
  show "(\<forall>r \<in> set results. skipped r) \<longrightarrow> merge_commercial_results results = empty_result"
  proof
    assume a: "\<forall>r \<in> set results. skipped r"
    then have "filter (\<lambda>r. \<not> skipped r) results = []" by (simp add: filter_empty_conv)
    then have e: "concat (map result_brands results) = []"
      "concat (map result_recommendations results) = []"
      "concat (map result_opportunities results) = []"
      using concat_unskipped [of result_brands results]
        concat_unskipped [of result_recommendations results]
        concat_unskipped [of result_opportunities results]
      by (simp_all add: skipped_items)
    show "merge_commercial_results results = empty_result"
      by (simp add: merge_unfold e empty_result_def sorted_desc_def dict_values_def)
  qed
  show "merge_commercial_results results
       = merge_commercial_results (filter (\<lambda>r. \<not> skipped r) results)"
    by (simp add: merge_unfold concat_unskipped skipped_items)
qed

theorem merge_skips_invalid_witness:
  "skipped None \<and> skipped error_result
   \<and> merge_commercial_results [None, error_result] = empty_result
   \<and> merge_commercial_results [error_result, brands_result [nike_neutral], None]
       = merge_commercial_results [brands_result [nike_neutral]]"
proof -
  have s: "skipped None" "skipped error_result" "\<not> skipped (brands_result [nike_neutral])"
    by (simp_all add: skipped_def error_result_def brands_result_def empty_dict_def)
  from merge_skips_invalid [of "[None, error_result]"]
       merge_skips_invalid [of "[error_result, brands_result [nike_neutral], None]"] s
  show ?thesis by simp
qed

subsection \<open>Dictionaries as maps\<close>

lemma map_of_update_entry:
  "map_of (update_entry k f d) k' = (if k' = k then map_option f (map_of d k) else map_of d k')"
  by (induction d) (auto simp: update_entry_def)

lemma map_add_absent: "m k = None \<Longrightarrow> [k \<mapsto> v] ++ m = m(k \<mapsto> v)"
  by (rule ext) (auto simp: map_add_def split: option.split)

lemma map_of_upsert: "map_of (upsert kf sd up x d) = upsert_map kf sd up x (map_of d)"
proof (cases "map_of d (kf x)")
  case None
  then show ?thesis
    by (simp add: upsert_def upsert_map_def contains_def setitem_absent map_add_absent)
next
  case (Some v)
  then show ?thesis
    by (intro ext) (simp add: upsert_def upsert_map_def contains_def map_of_update_entry)
qed

lemma map_of_fold_upsert:
  "map_of (fold (upsert kf sd up) xs d) = fold (upsert_map kf sd up) xs (map_of d)"
proof (induction xs arbitrary: d)
  case Nil
  show ?case by simp
next
  case (Cons x xs)
  have "map_of (fold (upsert kf sd up) (x # xs) d)
          = map_of (fold (upsert kf sd up) xs (upsert kf sd up x d))" by simp
  also have "\<dots> = fold (upsert_map kf sd up) xs (map_of (upsert kf sd up x d))" by (rule Cons)
  also have "\<dots> = fold (upsert_map kf sd up) (x # xs) (map_of d)"
    by (simp only: map_of_upsert fold_simps)
  finally show ?case .
qed

lemma distinct_keys_upsert:
  "distinct (map fst d) \<Longrightarrow> distinct (map fst (upsert kf sd up x d))"
  by (auto simp: keys_upsert contains_iff)

lemma distinct_keys_fold_upsert:
  "distinct (map fst d) \<Longrightarrow> distinct (map fst (fold (upsert kf sd up) xs d))"
proof (induction xs arbitrary: d)
  case Nil
  then show ?case by simp
next
  case (Cons x xs)
  from Cons.prems have "distinct (map fst (upsert kf sd up x d))" by (rule distinct_keys_upsert)
  then have "distinct (map fst (fold (upsert kf sd up) xs (upsert kf sd up x d)))" by (rule Cons.IH)
  then show ?case by simp
qed

lemma upsert_invariant:
  assumes "P (kf x) (sd x)" and "\<And>k e. P k e \<Longrightarrow> P k (up x e)"
    and "\<forall>(k, e) \<in> set d. P k e"
  shows "\<forall>(k, e) \<in> set (upsert kf sd up x d). P k e"
proof (cases "contains (kf x) d")
  case True
  then show ?thesis using assms(2,3) by (auto simp: upsert_def update_entry_def)
next
  case False
  then show ?thesis using assms(1,3) by (auto simp: upsert_def setitem_absent)
qed

lemma fold_upsert_invariant:
  assumes "\<And>x. x \<in> set xs \<Longrightarrow> P (kf x) (sd x)" and "\<And>x k e. P k e \<Longrightarrow> P k (up x e)"
    and "\<forall>(k, e) \<in> set d. P k e"
  shows "\<forall>(k, e) \<in> set (fold (upsert kf sd up) xs d). P k e"
  using assms
proof (induction xs arbitrary: d)
  case Nil
  then show ?case by simp
next
  case (Cons x xs)
  have "\<forall>(k, e) \<in> set (upsert kf sd up x d). P k e"
    by (rule upsert_invariant) (use Cons.prems in auto)
  then have "\<forall>(k, e) \<in> set (fold (upsert kf sd up) xs (upsert kf sd up x d)). P k e"
    by (intro Cons.IH) (use Cons.prems in auto)
  then show ?case by simp
qed

lemma fold_upsert_map_entries:
  assumes "\<And>e. e \<in> set ys \<Longrightarrow> kf (conv e) = ek e" and "\<And>e. e \<in> set ys \<Longrightarrow> sd (conv e) = e"
    and "distinct (map ek ys)"
  shows "fold (upsert_map kf sd up) (map conv ys) Map.empty = map_of (map (\<lambda>e. (ek e, e)) ys)"
  using assms
proof (induction ys rule: rev_induct)
  case Nil
  show ?case by simp
next
  case (snoc y ys)
  let ?m = "map_of (map (\<lambda>e. (ek e, e)) ys)"
  have ih: "fold (upsert_map kf sd up) (map conv ys) Map.empty = ?m"
    by (rule snoc.IH) (use snoc.prems in auto)
  have none: "?m (ek y) = None"
    using snoc.prems(3) by (auto simp: map_of_eq_None_iff image_image)
  have "fold (upsert_map kf sd up) (map conv (ys @ [y])) Map.empty
          = upsert_map kf sd up (conv y) (fold (upsert_map kf sd up) (map conv ys) Map.empty)"
    by simp
  also have "\<dots> = upsert_map kf sd up (conv y) ?m" by (simp only: ih)
  also have "\<dots> = ?m(ek y \<mapsto> y)"
    using none snoc.prems(1) [of y] snoc.prems(2) [of y] by (simp add: upsert_map_def)
  also have "\<dots> = map_of (map (\<lambda>e. (ek e, e)) (ys @ [y]))"
    using none by (simp add: map_add_absent)
  finally show ?case .
qed

text \<open>
  Merging the values of a merged dictionary again, in any order, followed by more items,
  gives the same map as merging the original items followed by the same items.
\<close>

lemma remerge_map:
  assumes inv: "\<And>k e. (k, e) \<in> set (fold (upsert kf sd up) xs []) \<Longrightarrow>
                  kf (conv e) = k \<and> sd (conv e) = e"
    and perm: "set I = snd ` set (fold (upsert kf sd up) xs [])" "distinct I"
  shows "map_of (fold (upsert kf sd up) (map conv I @ cs) [])
           = map_of (fold (upsert kf sd up) (xs @ cs) [])"
proof -
  let ?U = "upsert kf sd up" and ?M = "upsert_map kf sd up"
  let ?D = "fold ?U xs []"
  let ?ek = "\<lambda>e. kf (conv e)"
  have dD: "distinct (map fst ?D)" by (rule distinct_keys_fold_upsert) simp
  have pairs: "(\<lambda>e. (?ek e, e)) ` set I = set ?D"
  proof
    show "(\<lambda>e. (?ek e, e)) ` set I \<subseteq> set ?D"
      using perm(1) inv by force
    show "set ?D \<subseteq> (\<lambda>e. (?ek e, e)) ` set I"
    proof
      fix p assume p: "p \<in> set ?D"
      then have "snd p \<in> set I" using perm(1) by auto
      moreover have "?ek (snd p) = fst p" using inv [of "fst p" "snd p"] p by simp
      ultimately show "p \<in> (\<lambda>e. (?ek e, e)) ` set I" by (metis (mono_tags, lifting) image_eqI prod.collapse)
    qed
  qed
  have inj: "inj_on ?ek (set I)"
  proof (rule inj_onI)
    fix e e' assume e: "e \<in> set I" "e' \<in> set I" "?ek e = ?ek e'"
    from e(1) have "(?ek e, e) \<in> (\<lambda>e. (?ek e, e)) ` set I" by (rule imageI)
    moreover from e(2) have "(?ek e', e') \<in> (\<lambda>e. (?ek e, e)) ` set I" by (rule imageI)
    ultimately have "(?ek e, e) \<in> set ?D" "(?ek e, e') \<in> set ?D"
      using e(3) by (simp_all only: pairs)
    with dD show "e = e'" by (meson eq_key_imp_eq_value)
  qed
  have dI: "distinct (map ?ek I)"
    using perm(2) inj by (simp add: distinct_map)
  have "fold ?M (map conv I) Map.empty = map_of (map (\<lambda>e. (?ek e, e)) I)"
  proof (rule fold_upsert_map_entries [OF _ _ dI])
    fix e assume "e \<in> set I"
    then have "(?ek e, e) \<in> set ?D" using pairs by auto
    then show "sd (conv e) = e" using inv by blast
  qed simp
  also have "\<dots> = map_of ?D"
  proof -
    have "distinct (map fst (map (\<lambda>e. (?ek e, e)) I))" using dI by (simp add: comp_def)
    moreover have "set (map (\<lambda>e. (?ek e, e)) I) = set ?D" using pairs by simp
    ultimately show ?thesis using dD by (simp add: map_of_inject_set)
  qed
  also have "\<dots> = fold ?M xs Map.empty" by (simp add: map_of_fold_upsert)
  finally have "fold ?M (map conv I) Map.empty = fold ?M xs Map.empty" .
  then show ?thesis by (simp add: map_of_fold_upsert)
qed

lemma values_of_map:
  "distinct (map fst d) \<Longrightarrow> set (dict_values d) = ran (map_of d)"
  by (simp add: dict_values_def ran_distinct)

lemma length_of_map:
  "distinct (map fst d) \<Longrightarrow> length d = card (dom (map_of d))"
  by (metis distinct_card dom_map_of_conv_image_fst length_map set_map)

subsection \<open>Merging a merged result again\<close>

lemma merged_not_skipped: "\<not> skipped (Some (as_result m))"
  by (simp add: skipped_def as_result_def empty_dict_def)

lemma items_of_merged:
  "result_brands (Some (as_result m)) = map as_brand (out_brands m)"
  "result_recommendations (Some (as_result m)) = map as_recommendation (out_recommendations m)"
  "result_opportunities (Some (as_result m)) = out_opportunities m"
  using merged_not_skipped [of m]
  by (simp_all add: result_brands_def result_recommendations_def result_opportunities_def
      as_result_def get_def)

lemma brand_dict_invariant:
  "(k, e) \<in> set (fold (upsert brand_key seed_brand bump_brand)
                    (filter (\<lambda>b. brand_key b \<noteq> []) bs) []) \<Longrightarrow>
     brand_key (as_brand e) = k \<and> seed_brand (as_brand e) = e \<and> k \<noteq> []"
proof -
  let ?P = "\<lambda>k e. brand_key (as_brand e) = k \<and> k \<noteq> []"
  have "\<forall>(k, e) \<in> set (fold (upsert brand_key seed_brand bump_brand)
                    (filter (\<lambda>b. brand_key b \<noteq> []) bs) []). ?P k e"
  proof (rule fold_upsert_invariant)
    show "?P (brand_key x) (seed_brand x)" if "x \<in> set (filter (\<lambda>b. brand_key b \<noteq> []) bs)" for x
      using that by (simp add: brand_key_def as_brand_def seed_brand_def)
    show "?P k (bump_brand x e)" if "?P k e" for x k e
      using that by (simp add: brand_key_def as_brand_def bump_brand_eq)
  qed simp
  moreover have "seed_brand (as_brand e) = e"
    by (simp add: seed_brand_def as_brand_def get_def)
  moreover assume "(k, e) \<in> set (fold (upsert brand_key seed_brand bump_brand)
                    (filter (\<lambda>b. brand_key b \<noteq> []) bs) [])"
  ultimately show ?thesis by auto
qed

lemma distinct_values:
  assumes "distinct (map fst d)" and "\<And>k e. (k, e) \<in> set d \<Longrightarrow> ek e = k"
  shows "distinct (dict_values d)"
proof -
  have "map ek (dict_values d) = map fst d"
    using assms(2) by (auto simp: dict_values_def)
  with assms(1) have "distinct (map ek (dict_values d))" by simp
  then show ?thesis by (simp add: distinct_map)
qed

lemma remerge_brands:
  "set (out_brands (merge_commercial_results [Some (as_result (merge_commercial_results [a, b])), c]))
     = set (out_brands (merge_commercial_results [a, b, c]))"
proof -
  let ?U = "upsert brand_key seed_brand bump_brand"
  let ?v = "filter (\<lambda>b. brand_key b \<noteq> [])"
  let ?xs = "?v (result_brands a @ result_brands b)"
  let ?cs = "?v (result_brands c)"
  let ?D = "fold ?U ?xs []"
  let ?I = "sorted_desc mentions (dict_values ?D)"
  have dD: "distinct (map fst ?D)" by (rule distinct_keys_fold_upsert) simp
  have inner: "out_brands (merge_commercial_results [a, b]) = ?I"
    by (simp add: merge_unfold fold_merge_brand)
  have valid: "?v (map as_brand ?I) = map as_brand ?I"
  proof -
    have "brand_key (as_brand e) \<noteq> []" if "e \<in> set ?I" for e
    proof -
      from that obtain k where "(k, e) \<in> set ?D"
        by (auto simp: set_sorted_desc dict_values_def)
      then show ?thesis using brand_dict_invariant by blast
    qed
    then show ?thesis by (simp add: filter_id_conv)
  qed
  have "distinct (dict_values ?D)"
  proof (rule distinct_values [OF dD])
    show "brand_key (as_brand e) = k" if "(k, e) \<in> set ?D" for k e
      using that brand_dict_invariant by blast
  qed
  then have dI: "distinct ?I" by (simp add: sorted_desc_def)
  have sI: "set ?I = snd ` set ?D" by (simp add: set_sorted_desc dict_values_def)
  have m: "map_of (fold ?U (map as_brand ?I @ ?cs) []) = map_of (fold ?U (?xs @ ?cs) [])"
    by (rule remerge_map [OF _ sI dI]) (use brand_dict_invariant in blast)
  have "out_brands (merge_commercial_results [Some (as_result (merge_commercial_results [a, b])), c])
      = sorted_desc mentions (dict_values
          (fold merge_brand (map as_brand (out_brands (merge_commercial_results [a, b]))
             @ result_brands c) []))"
    by (simp add: merge_unfold [of "[Some _, _]"] items_of_merged)
  also have "\<dots> = sorted_desc mentions (dict_values (fold ?U (?v (map as_brand ?I @ result_brands c)) []))"
    by (simp only: inner fold_merge_brand)
  also have "\<dots> = sorted_desc mentions (dict_values (fold ?U (map as_brand ?I @ ?cs) []))"
    by (subst filter_append) (simp only: valid)
  finally have "set (out_brands (merge_commercial_results [Some (as_result (merge_commercial_results [a, b])), c]))
      = set (dict_values (fold ?U (map as_brand ?I @ ?cs) []))"
    by (simp only: set_sorted_desc)
  also have "\<dots> = ran (map_of (fold ?U (map as_brand ?I @ ?cs) []))"
    by (intro values_of_map distinct_keys_fold_upsert) simp
  also have "\<dots> = ran (map_of (fold ?U (?xs @ ?cs) []))" by (simp only: m)
  also have "\<dots> = set (dict_values (fold ?U (?xs @ ?cs) []))"
    by (intro values_of_map [symmetric] distinct_keys_fold_upsert) simp
  also have "\<dots> = set (out_brands (merge_commercial_results [a, b, c]))"
    by (simp add: merge_unfold [of "[a, b, c]"] fold_merge_brand set_sorted_desc)
  finally show ?thesis .
qed

lemma merge_recommendation_upsert:
  "merge_recommendation r d =
     (if rec_key r = [] then d
      else upsert rec_key seed_recommendation bump_recommendation r d)"
proof -
  have "(\<lambda>e. e\<lparr>endorsements := endorsements e + get (rec_endorsements r) 1\<rparr>)
          = bump_recommendation r"
    by (rule ext) (simp add: bump_recommendation_def)
  then show ?thesis
    unfolding merge_recommendation_def upsert_def rec_key_def seed_recommendation_def
    by (simp add: Let_def)
qed

lemma fold_merge_recommendation:
  "fold merge_recommendation rs d =
     fold (upsert rec_key seed_recommendation bump_recommendation)
       (filter (\<lambda>r. rec_key r \<noteq> []) rs) d"
  by (induction rs arbitrary: d) (simp_all add: merge_recommendation_upsert)

lemma rec_dict_invariant:
  "(k, e) \<in> set (fold (upsert rec_key seed_recommendation bump_recommendation)
                    (filter (\<lambda>r. rec_key r \<noteq> []) rs) []) \<Longrightarrow>
     rec_key (as_recommendation e) = k \<and> seed_recommendation (as_recommendation e) = e \<and> k \<noteq> []"
proof -
  let ?P = "\<lambda>k e. rec_key (as_recommendation e) = k \<and> k \<noteq> []"
  have "\<forall>(k, e) \<in> set (fold (upsert rec_key seed_recommendation bump_recommendation)
                    (filter (\<lambda>r. rec_key r \<noteq> []) rs) []). ?P k e"
  proof (rule fold_upsert_invariant)
    show "?P (rec_key x) (seed_recommendation x)" if "x \<in> set (filter (\<lambda>r. rec_key r \<noteq> []) rs)" for x
      using that by (simp add: rec_key_def as_recommendation_def seed_recommendation_def)
    show "?P k (bump_recommendation x e)" if "?P k e" for x k e
      using that by (simp add: rec_key_def as_recommendation_def bump_recommendation_def)
  qed simp
  moreover have "seed_recommendation (as_recommendation e) = e"
    by (simp add: seed_recommendation_def as_recommendation_def get_def)
  moreover assume "(k, e) \<in> set (fold (upsert rec_key seed_recommendation bump_recommendation)
                    (filter (\<lambda>r. rec_key r \<noteq> []) rs) [])"
  ultimately show ?thesis by auto
qed

lemma length_fold_upsert:
  "length (fold (upsert kf sd up) xs []) = length (first_seen (map kf xs))"
  by (simp add: fold_upsert)

lemma length_first_seen: "length (first_seen ks) = card (set ks)"
  by (metis distinct_card distinct_first_seen set_first_seen)

lemma length_first_seen_mono: "length (first_seen ks) \<le> length (first_seen (ks @ ks'))"
  by (simp add: length_first_seen card_mono)

lemma take_sorted_desc: "length xs \<le> n \<Longrightarrow> take n (sorted_desc f xs) = sorted_desc f xs"
  by (simp add: length_sorted_desc)

lemma remerge_recommendations:
  assumes "length (first_seen (map rec_key (named_recommendations [a, b, c]))) \<le> 8"
  shows "set (out_recommendations
            (merge_commercial_results [Some (as_result (merge_commercial_results [a, b])), c]))
     = set (out_recommendations (merge_commercial_results [a, b, c]))"
proof -
  let ?U = "upsert rec_key seed_recommendation bump_recommendation"
  let ?v = "filter (\<lambda>r. rec_key r \<noteq> [])"
  let ?xs = "?v (result_recommendations a @ result_recommendations b)"
  let ?cs = "?v (result_recommendations c)"
  let ?D = "fold ?U ?xs []"
  let ?I = "sorted_desc endorsements (dict_values ?D)"
  have all: "named_recommendations [a, b, c] = ?xs @ ?cs"
    by (simp add: named_recommendations_def)
  have small: "length (first_seen (map rec_key (?xs @ ?cs))) \<le> 8"
    using assms by (simp only: all)
  have dD: "distinct (map fst ?D)" by (rule distinct_keys_fold_upsert) simp
  have lD: "length (dict_values ?D) \<le> 8"
  proof -
    have "length ?D = length (first_seen (map rec_key ?xs))" by (rule length_fold_upsert)
    also have "\<dots> \<le> length (first_seen (map rec_key ?xs @ map rec_key ?cs))"
      by (rule length_first_seen_mono)
    also have "\<dots> \<le> 8" using small by (simp only: map_append)
    finally show ?thesis by (simp add: dict_values_def)
  qed
  have "out_recommendations (merge_commercial_results [a, b])
          = take 8 (sorted_desc endorsements (dict_values (fold merge_recommendation
              (result_recommendations a @ result_recommendations b) [])))"
    by (simp add: merge_unfold [of "[a, b]"])
  also have "\<dots> = take 8 ?I" by (simp only: fold_merge_recommendation)
  also have "\<dots> = ?I" using lD by (rule take_sorted_desc)
  finally have inner: "out_recommendations (merge_commercial_results [a, b]) = ?I" .
  have valid: "?v (map as_recommendation ?I) = map as_recommendation ?I"
  proof -
    have "rec_key (as_recommendation e) \<noteq> []" if "e \<in> set ?I" for e
    proof -
      from that obtain k where "(k, e) \<in> set ?D"
        by (auto simp: set_sorted_desc dict_values_def)
      then show ?thesis using rec_dict_invariant by blast
    qed
    then show ?thesis by (simp add: filter_id_conv)
  qed
  have "distinct (dict_values ?D)"
  proof (rule distinct_values [OF dD])
    show "rec_key (as_recommendation e) = k" if "(k, e) \<in> set ?D" for k e
      using that rec_dict_invariant by blast
  qed
  then have dI: "distinct ?I" by (simp add: sorted_desc_def)
  have sI: "set ?I = snd ` set ?D" by (simp add: set_sorted_desc dict_values_def)
  let ?Dn = "fold ?U (map as_recommendation ?I @ ?cs) []"
  let ?Df = "fold ?U (?xs @ ?cs) []"
  have m: "map_of ?Dn = map_of ?Df"
    by (rule remerge_map [OF _ sI dI]) (use rec_dict_invariant in blast)
  have dn: "distinct (map fst ?Dn)" and df: "distinct (map fst ?Df)"
    by (rule distinct_keys_fold_upsert, simp)+
  have lf: "length (dict_values ?Df) \<le> 8"
    using small by (simp only: dict_values_def length_map length_fold_upsert)
  have "length ?Dn = length ?Df"
    by (simp only: length_of_map [OF dn] length_of_map [OF df] m)
  with lf have ln: "length (dict_values ?Dn) \<le> 8" by (simp add: dict_values_def)
  have "out_recommendations
          (merge_commercial_results [Some (as_result (merge_commercial_results [a, b])), c])
      = take 8 (sorted_desc endorsements (dict_values
          (fold merge_recommendation
             (map as_recommendation (out_recommendations (merge_commercial_results [a, b]))
               @ result_recommendations c) [])))"
    by (simp add: merge_unfold [of "[Some _, _]"] items_of_merged)
  also have "\<dots> = take 8 (sorted_desc endorsements (dict_values
          (fold ?U (?v (map as_recommendation ?I @ result_recommendations c)) [])))"
    by (simp only: inner fold_merge_recommendation)
  also have "\<dots> = take 8 (sorted_desc endorsements (dict_values ?Dn))"
    by (subst filter_append) (simp only: valid)
  also have "\<dots> = sorted_desc endorsements (dict_values ?Dn)"
    using ln by (rule take_sorted_desc)
  finally have "set (out_recommendations
          (merge_commercial_results [Some (as_result (merge_commercial_results [a, b])), c]))
      = set (dict_values ?Dn)"
    by (simp only: set_sorted_desc)
  also have "\<dots> = ran (map_of ?Dn)" using dn by (rule values_of_map)
  also have "\<dots> = ran (map_of ?Df)" by (simp only: m)
  also have "\<dots> = set (dict_values ?Df)" using df by (rule values_of_map [symmetric])
  also have "\<dots> = set (sorted_desc endorsements (dict_values ?Df))"
    by (simp only: set_sorted_desc)
  also have "\<dots> = set (take 8 (sorted_desc endorsements (dict_values ?Df)))"
    using lf by (simp only: take_sorted_desc)
  also have "\<dots> = set (out_recommendations (merge_commercial_results [a, b, c]))"
    by (simp add: merge_unfold [of "[a, b, c]"] fold_merge_recommendation)
  finally show ?thesis .
qed

lemma merge_opportunity_extends: "\<exists>rest. merge_opportunity opp d = d @ rest"
  by (auto simp: merge_opportunity_def Let_def setitem_absent)

lemma fold_merge_opportunity_extends: "\<exists>rest. fold merge_opportunity opps d = d @ rest"
proof (induction opps arbitrary: d)
  case Nil
  show ?case by simp
next
  case (Cons opp opps)
  obtain r1 where r1: "merge_opportunity opp d = d @ r1"
    using merge_opportunity_extends by blast
  obtain r2 where "fold merge_opportunity opps (d @ r1) = (d @ r1) @ r2"
    using Cons by blast
  with r1 show ?case by simp
qed

lemma fold_merge_opportunity_values:
  assumes "distinct (map fst (d0 @ d))"
    and "\<And>k opp. (k, opp) \<in> set d \<Longrightarrow> opp_key opp = k \<and> fst k \<noteq> []"
  shows "fold merge_opportunity (dict_values d) d0 = d0 @ d"
  using assms
proof (induction d arbitrary: d0)
  case Nil
  show ?case by (simp add: dict_values_def)
next
  case (Cons p d)
  obtain k opp where p: "p = (k, opp)" by (cases p)
  from Cons.prems(2) [of k opp] p have key: "opp_key opp = k" "fst k \<noteq> []" by simp_all
  from Cons.prems(1) p have "\<not> contains k d0" by (auto simp: contains_iff)
  with key have step: "merge_opportunity opp d0 = d0 @ [p]"
    by (simp add: merge_opportunity_def setitem_absent p)
  have "fold merge_opportunity (dict_values d) (d0 @ [p]) = (d0 @ [p]) @ d"
    by (rule Cons.IH) (use Cons.prems in auto)
  with step show ?case by (simp add: dict_values_def p)
qed

lemma opp_dict_invariant:
  "(k, opp) \<in> set (fold merge_opportunity opps []) \<Longrightarrow> opp_key opp = k \<and> fst k \<noteq> []"
proof -
  let ?P = "\<lambda>k e. opp_key e = k \<and> fst k \<noteq> []"
  have "\<forall>(k, e) \<in> set (fold (upsert opp_key (\<lambda>opp. opp) (\<lambda>opp e. e))
                    (filter (\<lambda>opp. fst (opp_key opp) \<noteq> []) opps) []). ?P k e"
    by (rule fold_upsert_invariant) simp_all
  moreover assume "(k, opp) \<in> set (fold merge_opportunity opps [])"
  ultimately show ?thesis by (auto simp: fold_merge_opportunity)
qed

lemma distinct_opp_dict: "distinct (map fst (fold merge_opportunity opps []))"
  unfolding fold_merge_opportunity by (rule distinct_keys_fold_upsert) simp

lemma take_values_extend:
  "take n (dict_values (fold merge_opportunity opps (take n d)))
     = take n (dict_values (fold merge_opportunity opps d))"
proof (cases "length d \<le> n")
  case True
  then show ?thesis by simp
next
  case False
  obtain r1 where r1: "fold merge_opportunity opps (take n d) = take n d @ r1"
    using fold_merge_opportunity_extends by blast
  obtain r2 where r2: "fold merge_opportunity opps d = d @ r2"
    using fold_merge_opportunity_extends by blast
  from False show ?thesis
    by (simp add: r1 r2 dict_values_def take_map)
qed

lemma remerge_opportunities:
  "out_opportunities
      (merge_commercial_results [Some (as_result (merge_commercial_results [a, b])), c])
     = out_opportunities (merge_commercial_results [a, b, c])"
proof -
  let ?ab = "result_opportunities a @ result_opportunities b"
  let ?D = "fold merge_opportunity ?ab []"
  have inner: "out_opportunities (merge_commercial_results [a, b]) = dict_values (take 5 ?D)"
    by (simp add: merge_unfold [of "[a, b]"] dict_values_def take_map)
  have again: "fold merge_opportunity (dict_values (take 5 ?D)) [] = take 5 ?D"
  proof -
    have "distinct (map fst (take 5 ?D))"
      using distinct_opp_dict [of ?ab] by (simp add: take_map [symmetric])
    moreover have "opp_key opp = k \<and> fst k \<noteq> []" if "(k, opp) \<in> set (take 5 ?D)" for k opp
      using that opp_dict_invariant [of k opp ?ab] by (meson in_set_takeD)
    ultimately show ?thesis
      using fold_merge_opportunity_values [of "[]" "take 5 ?D"] by simp
  qed
  have "out_opportunities
      (merge_commercial_results [Some (as_result (merge_commercial_results [a, b])), c])
      = take 5 (dict_values (fold merge_opportunity
          (out_opportunities (merge_commercial_results [a, b]) @ result_opportunities c) []))"
    by (simp add: merge_unfold [of "[Some _, _]"] items_of_merged)
  also have "\<dots> = take 5 (dict_values (fold merge_opportunity (result_opportunities c)
                      (fold merge_opportunity (dict_values (take 5 ?D)) [])))"
    by (simp only: inner fold_append comp_def)
  also have "\<dots> = take 5 (dict_values (fold merge_opportunity (result_opportunities c) (take 5 ?D)))"
    by (simp only: again)
  also have "\<dots> = take 5 (dict_values (fold merge_opportunity (result_opportunities c) ?D))"
    by (rule take_values_extend)
  also have "\<dots> = out_opportunities (merge_commercial_results [a, b, c])"
    by (simp add: merge_unfold [of "[a, b, c]"])
  finally show ?thesis .
qed

text \<open>
  Claim C5 as stated fails for the recommendations, which every merge cuts to the top eight:
  with nine items in \<open>a\<close>, the ninth one endorsement short of the others, and five more
  endorsements for it in \<open>c\<close>, the flat merge ranks it first with 14 endorsements, while the
  nested merge has dropped it from \<open>merge [a, b]\<close> and does not list it at all.
\<close>

theorem remerge_counterexample:
  "out_recommendations (merge_commercial_results
      [recommendations_result nine_recs, recommendations_result [],
       recommendations_result [rec_of ''I'' 5]])
     = map seed_recommendation
         [rec_of ''i'' 14, rec_of ''a'' 10, rec_of ''b'' 10, rec_of ''c'' 10, rec_of ''d'' 10,
          rec_of ''e'' 10, rec_of ''f'' 10, rec_of ''g'' 10]
   \<and> out_recommendations (merge_commercial_results
      [Some (as_result (merge_commercial_results
          [recommendations_result nine_recs, recommendations_result []])),
       recommendations_result [rec_of ''I'' 5]])
     = map seed_recommendation
         [rec_of ''a'' 10, rec_of ''b'' 10, rec_of ''c'' 10, rec_of ''d'' 10, rec_of ''e'' 10,
          rec_of ''f'' 10, rec_of ''g'' 10, rec_of ''h'' 10]"
  by code_simp

text \<open>
  Claim C5, amended. Merging \<open>merge [a, b]\<close> with \<open>c\<close> gives the same brand entries as
  merging \<open>a\<close>, \<open>b\<close> and \<open>c\<close> at once (hence the same mention total for every brand; only
  the order among equal totals can differ) and the same opportunities in the same order. The
  recommendations are the same set when \<open>a\<close>, \<open>b\<close> and \<open>c\<close> together hold at most eight
  distinct normalized recommendation items, so that no merge cuts the list.
\<close>

theorem remerge_same:
  "set (out_brands
          (merge_commercial_results [Some (as_result (merge_commercial_results [a, b])), c]))
     = set (out_brands (merge_commercial_results [a, b, c]))
   \<and> out_opportunities
        (merge_commercial_results [Some (as_result (merge_commercial_results [a, b])), c])
     = out_opportunities (merge_commercial_results [a, b, c])
   \<and> (length (first_seen (map rec_key (named_recommendations [a, b, c]))) \<le> 8 \<longrightarrow>
        set (out_recommendations
              (merge_commercial_results [Some (as_result (merge_commercial_results [a, b])), c]))
          = set (out_recommendations (merge_commercial_results [a, b, c])))"
  using remerge_brands remerge_opportunities remerge_recommendations by blast

theorem remerge_same_witness:
  "length (first_seen (map rec_key (named_recommendations
      [recommendations_result [rec_of ''a'' 2, rec_of ''b'' 3], brands_result [nike_neutral],
       recommendations_result [rec_of ''A'' 4]]))) \<le> 8
   \<and> set (out_recommendations (merge_commercial_results
        [Some (as_result (merge_commercial_results
           [recommendations_result [rec_of ''a'' 2, rec_of ''b'' 3], brands_result [nike_neutral]])),
         recommendations_result [rec_of ''A'' 4]]))
     = set (out_recommendations (merge_commercial_results
        [recommendations_result [rec_of ''a'' 2, rec_of ''b'' 3], brands_result [nike_neutral],
         recommendations_result [rec_of ''A'' 4]]))"
proof -
  have small: "length (first_seen (map rec_key (named_recommendations
      [recommendations_result [rec_of ''a'' 2, rec_of ''b'' 3], brands_result [nike_neutral],
       recommendations_result [rec_of ''A'' 4]]))) \<le> 8"
    by code_simp
  with remerge_same [of "recommendations_result [rec_of ''a'' 2, rec_of ''b'' 3]"
      "brands_result [nike_neutral]" "recommendations_result [rec_of ''A'' 4]"]
  show ?thesis by blast
qed


section \<open>Properties of the pipelines\<close>

subsection \<open>The batch loops\<close>

lemma prepare_within_budget:
  "length comments \<le> max_comments \<Longrightarrow>
     \<exists>text. prepare_comments_for_analysis comments max_comments = Inr text"
  by (simp add: prepare_comments_for_analysis_def select_comments_within_budget)

lemma process_batches_all_return:
  assumes "\<And>n text. \<exists>r. extract_commercial_opportunities_aggregated env n text keyword
                          article_count = Inr r"
  shows "\<exists>calls results.
           process_batches env keyword article_count i batches = (calls, Inr results)
         \<and> length results = length batches
         \<and> (\<forall>j < length batches. \<exists>text.
               prepare_comments_for_analysis (batches ! j) (length (batches ! j)) = Inr text
             \<and> extract_commercial_opportunities_aggregated env (i + j) text keyword article_count
                 = Inr (results ! j))"
proof (induction batches arbitrary: i)
  case Nil
  show ?case by simp
next
  case (Cons batch rest)
  obtain t where t: "prepare_comments_for_analysis batch (length batch) = Inr t"
    using prepare_within_budget [of batch "length batch"] by auto
  obtain r where r: "extract_commercial_opportunities_aggregated env i t keyword article_count
      = Inr r"
    using assms by blast
  from Cons [of "Suc i"] obtain calls results where
    rest: "process_batches env keyword article_count (Suc i) rest = (calls, Inr results)"
      "length results = length rest"
      "\<forall>j < length rest. \<exists>text.
          prepare_comments_for_analysis (rest ! j) (length (rest ! j)) = Inr text
        \<and> extract_commercial_opportunities_aggregated env (Suc i + j) text keyword article_count
            = Inr (results ! j)"
    by blast
  have run: "process_batches env keyword article_count i (batch # rest)
      = (Service (Aggregated_call i) # calls, Inr (r # results))"
    by (simp add: t r rest(1))
  have each: "\<exists>text.
          prepare_comments_for_analysis ((batch # rest) ! j) (length ((batch # rest) ! j)) = Inr text
        \<and> extract_commercial_opportunities_aggregated env (i + j) text keyword article_count
            = Inr ((r # results) ! j)" if "j < length (batch # rest)" for j
  proof (cases j)
    case 0
    with t r show ?thesis by simp
  next
    case (Suc k)
    with that rest(3) show ?thesis by simp
  qed
  from run rest(2) each show ?case by auto
qed

lemma analyze_batches_all_return:
  assumes "\<And>n text. \<exists>r. extract_commercial_opportunities_aggregated env n text keyword
                          article_count = Inr r"
  shows "\<exists>events. analyze_batches env keyword article_count i num_batches batches
           = (events, snd (process_batches env keyword article_count i batches))"
proof (induction batches arbitrary: i)
  case Nil
  show ?case by simp
next
  case (Cons batch rest)
  obtain t where t: "prepare_comments_for_analysis batch (length batch) = Inr t"
    using prepare_within_budget [of batch "length batch"] by auto
  obtain r where r: "extract_commercial_opportunities_aggregated env i t keyword article_count
      = Inr r"
    using assms by blast
  from Cons [of "Suc i"] obtain events where
    rest: "analyze_batches env keyword article_count (Suc i) num_batches rest
      = (events, snd (process_batches env keyword article_count (Suc i) rest))"
    by blast
  obtain calls results where
    p: "process_batches env keyword article_count (Suc i) rest = (calls, Inr results)"
    using process_batches_all_return [OF assms, of "Suc i" rest] by blast
  show ?case by (simp add: t r rest p Let_def)
qed

lemma batch_sizes_450:
  assumes "length comments = 450"
  shows "\<exists>batches. split_batches comments 200 = Inr batches \<and> map length batches = [200, 200, 50]"
proof -
  let ?s = "sorted_desc recommends comments"
  have l: "length ?s = 450" using assms by (simp add: length_sorted_desc)
  have "range_from 0 450 200 = [0, 200, 400]"
    by (simp add: range_from_more range_from_done)
  then have "split_batches comments 200
      = Inr [take 200 ?s, take 200 (drop 200 ?s), take 200 (drop 400 ?s)]"
    by (simp add: split_batches_def range_step_def l Let_def)
  then show ?thesis using l by simp
qed

lemma merge_skips_invalid_eq:
  "merge_commercial_results results
     = merge_commercial_results (filter (\<lambda>r. \<not> skipped r) results)"
  by (simp add: merge_unfold concat_unskipped skipped_items)

text \<open>
  Claim C2. A failed call for one batch must not end the batched pipeline. In the code it does
  whenever the failure is an exception: with five comments in batches of two, an exception of
  the service call for the second batch, or a response of the second batch whose braces do
  not parse (the second \<^verbatim>\<open>json.loads\<close> is not guarded), ends the loop after two calls; the
  third batch is never sent and there is no merged result.
\<close>

theorem batch_failure_counterexample:
  "extract_commercial_opportunities_batched raising_env (map mk_comment [5, 4, 3, 2, 1])
       ''shoes'' 1 2
     = ([Service (Aggregated_call 0), Service (Aggregated_call 1)],
        Inl (OtherError ''overloaded''))
   \<and> extract_commercial_opportunities_batched garbled_env (map mk_comment [5, 4, 3, 2, 1])
       ''shoes'' 1 2
     = ([Service (Aggregated_call 0), Service (Aggregated_call 1)],
        Inl (JSONDecodeError ''Expecting value''))"
  by code_simp

text \<open>
  What the batched pipeline does isolate: when every call returns (a parsed result or the
  error-marked dictionary of a response without braces), the function
  \<^verbatim>\<open>extract_commercial_opportunities_batched\<close> and the third phase of the keyword and section
  flows end with the merge of exactly the returned results that are not skipped; 450 comments
  make three batches of 200, 200 and 50.
\<close>

theorem batched_pipeline_skips_error_results:
  assumes "\<And>n t. \<exists>r. extract_commercial_opportunities_aggregated env n t keyword
                        article_count = Inr r"
  shows "\<exists>batches results.
           split_batches comments 200 = Inr batches
         \<and> length results = length batches
         \<and> (\<forall>j < length batches. \<exists>t.
               prepare_comments_for_analysis (batches ! j) (length (batches ! j)) = Inr t
             \<and> extract_commercial_opportunities_aggregated env j t keyword article_count
                 = Inr (results ! j))
         \<and> snd (extract_commercial_opportunities_batched env comments keyword article_count 200)
             = Inr (merge_commercial_results (filter (\<lambda>r. \<not> skipped r) results))
         \<and> (\<exists>events. analyze_in_batches env keyword article_count comments
               = events @
                 [Yield (Result_event ''commercialOpportunities''
                    (Merged (merge_commercial_results (filter (\<lambda>r. \<not> skipped r) results)))),
                  Yield (Complete ''Analysis complete'')])
         \<and> (length comments = 450 \<longrightarrow> map length batches = [200, 200, 50])"
proof -
  obtain batches where b: "split_batches comments 200 = Inr batches"
    by (simp add: split_batches_def range_step_def Let_def)
  obtain calls results where
    p: "process_batches env keyword article_count 0 batches = (calls, Inr results)"
    and len: "length results = length batches"
    and each: "\<forall>j < length batches. \<exists>t.
               prepare_comments_for_analysis (batches ! j) (length (batches ! j)) = Inr t
             \<and> extract_commercial_opportunities_aggregated env (0 + j) t keyword article_count
                 = Inr (results ! j)"
    using process_batches_all_return [OF assms, of 0 batches] by blast
  obtain events where
    a: "analyze_batches env keyword article_count 0 (length batches) batches
          = (events, Inr results)"
    using analyze_batches_all_return [OF assms, of 0 "length batches" batches] p by auto
  have m: "merge_commercial_results results
      = merge_commercial_results (filter (\<lambda>r. \<not> skipped r) results)"
    using merge_skips_invalid_eq .
  have lib: "snd (extract_commercial_opportunities_batched env comments keyword article_count 200)
      = Inr (merge_commercial_results (filter (\<lambda>r. \<not> skipped r) results))"
  proof (cases "batches = []")
    case True
    with len have "results = []" by simp
    with True b show ?thesis
      by (simp add: extract_commercial_opportunities_batched_def merge_unfold empty_result_def
          sorted_desc_def dict_values_def)
  next
    case False
    with b p m show ?thesis by (simp add: extract_commercial_opportunities_batched_def)
  qed
  have flow: "analyze_in_batches env keyword article_count comments
      = (Yield (Progress ''analyzing''
            (''Analyzing '' @ show_nat (length comments) @ '' comments in ''
               @ show_nat (length batches) @ '' batch(es)...'')) # events) @
        [Yield (Result_event ''commercialOpportunities''
           (Merged (merge_commercial_results (filter (\<lambda>r. \<not> skipped r) results)))),
         Yield (Complete ''Analysis complete'')]"
    using b a m by (simp add: analyze_in_batches_def)
  have sizes: "map length batches = [200, 200, 50]" if "length comments = 450"
    using batch_sizes_450 [OF that] b by simp
  have each': "\<forall>j < length batches. \<exists>t.
               prepare_comments_for_analysis (batches ! j) (length (batches ! j)) = Inr t
             \<and> extract_commercial_opportunities_aggregated env j t keyword article_count
                 = Inr (results ! j)"
    using each by simp
  have flow': "\<exists>events. analyze_in_batches env keyword article_count comments
               = events @
                 [Yield (Result_event ''commercialOpportunities''
                    (Merged (merge_commercial_results (filter (\<lambda>r. \<not> skipped r) results)))),
                  Yield (Complete ''Analysis complete'')]"
    by (rule exI [of _ "Yield (Progress ''analyzing''
            (''Analyzing '' @ show_nat (length comments) @ '' comments in ''
               @ show_nat (length batches) @ '' batch(es)...'')) # events"]) (rule flow)
  have sizes': "length comments = 450 \<longrightarrow> map length batches = [200, 200, 50]"
    using sizes by (rule impI)
  show ?thesis
  proof (rule exI [of _ batches], rule exI [of _ results], intro conjI)
    show "split_batches comments 200 = Inr batches" by (rule b)
    show "length results = length batches" by (rule len)
    show "\<forall>j < length batches. \<exists>t.
               prepare_comments_for_analysis (batches ! j) (length (batches ! j)) = Inr t
             \<and> extract_commercial_opportunities_aggregated env j t keyword article_count
                 = Inr (results ! j)" by (rule each')
    show "snd (extract_commercial_opportunities_batched env comments keyword article_count 200)
             = Inr (merge_commercial_results (filter (\<lambda>r. \<not> skipped r) results))"
      by (rule lib)
    show "\<exists>events. analyze_in_batches env keyword article_count comments
               = events @
                 [Yield (Result_event ''commercialOpportunities''
                    (Merged (merge_commercial_results (filter (\<lambda>r. \<not> skipped r) results)))),
                  Yield (Complete ''Analysis complete'')]" by (rule flow')
    show "length comments = 450 \<longrightarrow> map length batches = [200, 200, 50]" by (rule sizes')
  qed
qed

lemma unparsed_env_calls:
  "extract_commercial_opportunities_aggregated unparsed_env n t keyword article_count
     = (if n = 1
        then Inr (Some \<lparr>error = Some ''Failed to parse commercial opportunities'',
                         raw = Some ''no json'', brands = None, recommendations = None,
                         opportunities = None\<rparr>)
        else Inr (brands_result [nike_neutral]))"
  by (simp add: extract_commercial_opportunities_aggregated_def unparsed_env_def quiet_env_def
      parse_response_def search_braces_def)

theorem batched_pipeline_skips_error_results_witness:
  "snd (extract_commercial_opportunities_batched unparsed_env (replicate 450 (mk_comment 1))
          ''shoes'' 1 200)
     = Inr (merge_commercial_results [brands_result [nike_neutral], brands_result [nike_neutral]])"
proof -
  let ?e = "Some \<lparr>error = Some ''Failed to parse commercial opportunities'',
                         raw = Some ''no json'', brands = None, recommendations = None,
                         opportunities = None\<rparr>"
  let ?r = "brands_result [nike_neutral]"
  have ret: "\<exists>r. extract_commercial_opportunities_aggregated unparsed_env n t ''shoes'' 1 = Inr r"
    for n t
    by (simp add: unparsed_env_calls)
  note th = batched_pipeline_skips_error_results
         [of unparsed_env "''shoes''" 1 "replicate 450 (mk_comment 1)", OF ret]
  from th obtain batches where "\<exists>results.
           split_batches (replicate 450 (mk_comment 1)) 200 = Inr batches
         \<and> length results = length batches
         \<and> (\<forall>j < length batches. \<exists>t.
               prepare_comments_for_analysis (batches ! j) (length (batches ! j)) = Inr t
             \<and> extract_commercial_opportunities_aggregated unparsed_env j t ''shoes'' 1
                 = Inr (results ! j))
         \<and> snd (extract_commercial_opportunities_batched unparsed_env
                (replicate 450 (mk_comment 1)) ''shoes'' 1 200)
             = Inr (merge_commercial_results (filter (\<lambda>r. \<not> skipped r) results))
         \<and> (\<exists>events. analyze_in_batches unparsed_env ''shoes'' 1 (replicate 450 (mk_comment 1))
               = events @
                 [Yield (Result_event ''commercialOpportunities''
                    (Merged (merge_commercial_results (filter (\<lambda>r. \<not> skipped r) results)))),
                  Yield (Complete ''Analysis complete'')])
         \<and> (length (replicate 450 (mk_comment 1)) = 450 \<longrightarrow> map length batches = [200, 200, 50])" ..
  then obtain results where all:
          "split_batches (replicate 450 (mk_comment 1)) 200 = Inr batches
         \<and> length results = length batches
         \<and> (\<forall>j < length batches. \<exists>t.
               prepare_comments_for_analysis (batches ! j) (length (batches ! j)) = Inr t
             \<and> extract_commercial_opportunities_aggregated unparsed_env j t ''shoes'' 1
                 = Inr (results ! j))
         \<and> snd (extract_commercial_opportunities_batched unparsed_env
                (replicate 450 (mk_comment 1)) ''shoes'' 1 200)
             = Inr (merge_commercial_results (filter (\<lambda>r. \<not> skipped r) results))
         \<and> (\<exists>events. analyze_in_batches unparsed_env ''shoes'' 1 (replicate 450 (mk_comment 1))
               = events @
                 [Yield (Result_event ''commercialOpportunities''
                    (Merged (merge_commercial_results (filter (\<lambda>r. \<not> skipped r) results)))),
                  Yield (Complete ''Analysis complete'')])
         \<and> (length (replicate 450 (mk_comment 1)) = 450 \<longrightarrow> map length batches = [200, 200, 50])" ..
  note len = all [THEN conjunct2, THEN conjunct1]
  note each = all [THEN conjunct2, THEN conjunct2, THEN conjunct1]
  note out = all [THEN conjunct2, THEN conjunct2, THEN conjunct2, THEN conjunct1]
  note sizes = all [THEN conjunct2, THEN conjunct2, THEN conjunct2, THEN conjunct2, THEN conjunct2]
  from sizes have "length (map length batches) = 3" by simp
  with len have l3: "length results = 3" "length batches = 3" by simp_all
  have r: "results ! j = (if j = 1 then ?e else ?r)" if "j < 3" for j
  proof -
    from each that l3 obtain t where
      "extract_commercial_opportunities_aggregated unparsed_env j t ''shoes'' 1 = Inr (results ! j)"
      by auto
    then show ?thesis by (simp add: unparsed_env_calls split: if_splits)
  qed
  from l3(1) obtain x y z where xyz: "results = [x, y, z]"
    by (auto simp: length_Suc_conv numeral_3_eq_3)
  with r [of 0] r [of 1] r [of 2] have "results = [?r, ?e, ?r]" by simp
  then have "filter (\<lambda>r. \<not> skipped r) results = [?r, ?r]"
    by (simp add: skipped_def brands_result_def empty_dict_def)
  with out show ?thesis by simp
qed

subsection \<open>No comments\<close>

lemma scrape_nothing:
  assumes "list_all (no_comments env) articles"
  shows "\<exists>events. scrape_articles env i n articles (all_comments, articles_with_comments)
           = (events, all_comments, articles_with_comments)
         \<and> list_all is_progress events"
  using assms
proof (induction articles arbitrary: i)
  case Nil
  show ?case by simp
next
  case (Cons a rest)
  from Cons.prems have a: "no_comments env a" and "list_all (no_comments env) rest" by simp_all
  with Cons.IH [of "Suc i"] obtain events where
    rest: "scrape_articles env (Suc i) n rest (all_comments, articles_with_comments)
           = (events, all_comments, articles_with_comments)" "list_all is_progress events"
    by blast
  show ?case
  proof (cases "fetch_all_comments env (short_url a)")
    case (Inl e)
    with rest show ?thesis by (simp add: Let_def)
  next
    case (Inr result)
    with a have "get (fetched_comments result) [] = []" by (simp add: no_comments_def)
    with Inr rest show ?thesis by (simp add: Let_def)
  qed
qed

lemma show_nat_0: "show_nat 0 = ''0''"
  by code_simp

lemma progress_is_quiet: "is_progress a \<Longrightarrow> \<not> is_service a \<and> \<not> is_complete a \<and> \<not> is_error a"
  by (cases a rule: is_progress.cases) simp_all

lemma list_all_progress_quiet:
  "list_all is_progress events \<Longrightarrow>
     list_all (\<lambda>a. \<not> is_service a \<and> \<not> is_complete a \<and> \<not> is_error a) events"
  by (induction events) (simp_all add: progress_is_quiet)

text \<open>
  Claim C7 as stated fails for the keyword flow: one article without comments ends the flow
  with an error event, not with a completion.
\<close>

theorem no_comments_counterexample:
  "generate_keyword_analysis quiet_env ''shoes'' 10
     = [Yield (Progress ''searching''
          (''Searching for articles about '' @ apostrophe @ ''shoes'' @ apostrophe @ ''...'')),
        Yield (Progress ''searching'' ''Found 1 articles''),
        Yield (Result_event ''articles'' (Articles [an_article])),
        Yield (Progress ''scraping'' ''Scraping comments from article 1/1: Running shoes...''),
        Yield (Error_event ''No comments found across any articles'')]"
  by code_simp

text \<open>
  Claim C7, amended. With no comments collected, no flow calls the analysis service. The
  single-article flow ends with exactly one completion event (\<open>No comments to analyze.\<close>) and
  no error event. The keyword and the section flow (articles found, none with comments) end
  with exactly one error event (\<open>No comments found across any articles\<close>) and no completion
  event. The batched extraction function returns the canonical empty result.
\<close>

theorem no_comments_flows:
  "(anthropic_api_key env \<and> extract_short_url env article_url = Inr key
      \<and> fetch_all_comments env key = Inr result \<and> fetched_comments result = Some [] \<longrightarrow>
      generate_analysis env article_url
        = [Yield (Progress ''scraping'' ''Extracting discussion key...''),
           Yield (Progress ''scraping'' (''Found key '' @ key @ ''. Fetching comments...'')),
           Yield (Progress ''scraping'' ''Scraped 0 comments''),
           Yield (Result_event ''meta''
             (Meta [(''articleTitle'', Str (get (discussion_title result) ''Unknown Article'')),
                    (''articleUrl'', Str article_url),
                    (''totalComments'', Num 0),
                    (''uniqueCommenters'', Num 0),
                    (''commentsAnalyzed'', Num 0)])),
           Yield (Complete ''No comments to analyze.'')])
   \<and> (anthropic_api_key env \<and> guardian_api_key env
      \<and> search_articles_by_keyword env keyword limit = Inr articles \<and> articles \<noteq> []
      \<and> list_all (no_comments env) articles \<longrightarrow>
      (\<exists>events. generate_keyword_analysis env keyword limit
           = events @ [Yield (Error_event ''No comments found across any articles'')]
         \<and> list_all (\<lambda>a. \<not> is_service a \<and> \<not> is_complete a \<and> \<not> is_error a) events))
   \<and> (anthropic_api_key env
      \<and> extract_articles_from_section env section_url limit = Inr articles \<and> articles \<noteq> []
      \<and> list_all (no_comments env) articles \<longrightarrow>
      (\<exists>events. generate_section_analysis env section_url limit
           = events @ [Yield (Error_event ''No comments found across any articles'')]
         \<and> list_all (\<lambda>a. \<not> is_service a \<and> \<not> is_complete a \<and> \<not> is_error a) events))
   \<and> (0 < batch_size \<longrightarrow>
      extract_commercial_opportunities_batched env [] keyword article_count batch_size
        = ([], Inr empty_result))"
proof (intro conjI impI)
  assume "anthropic_api_key env \<and> extract_short_url env article_url = Inr key
      \<and> fetch_all_comments env key = Inr result \<and> fetched_comments result = Some []"
  then show "generate_analysis env article_url
        = [Yield (Progress ''scraping'' ''Extracting discussion key...''),
           Yield (Progress ''scraping'' (''Found key '' @ key @ ''. Fetching comments...'')),
           Yield (Progress ''scraping'' ''Scraped 0 comments''),
           Yield (Result_event ''meta''
             (Meta [(''articleTitle'', Str (get (discussion_title result) ''Unknown Article'')),
                    (''articleUrl'', Str article_url),
                    (''totalComments'', Num 0),
                    (''uniqueCommenters'', Num 0),
                    (''commentsAnalyzed'', Num 0)])),
           Yield (Complete ''No comments to analyze.'')]"
    by (simp add: generate_analysis_def show_nat_0)
next
  assume a: "anthropic_api_key env \<and> guardian_api_key env
      \<and> search_articles_by_keyword env keyword limit = Inr articles \<and> articles \<noteq> []
      \<and> list_all (no_comments env) articles"
  then obtain scraped where
    s: "scrape_articles env 0 (length articles) articles ([], []) = (scraped, [], [])"
       "list_all is_progress scraped"
    using scrape_nothing [of env articles 0 "length articles" "[]" "[]"] by blast
  let ?head = "[Yield (Progress ''searching''
          (''Searching for articles about '' @ apostrophe @ keyword @ apostrophe @ ''...'')),
        Yield (Progress ''searching'' (''Found '' @ show_nat (length articles) @ '' articles'')),
        Yield (Result_event ''articles'' (Articles articles))]"
  have "generate_keyword_analysis env keyword limit
      = (?head @ scraped) @ [Yield (Error_event ''No comments found across any articles'')]"
    using a s(1) by (simp add: generate_keyword_analysis_def)
  moreover have "list_all (\<lambda>a. \<not> is_service a \<and> \<not> is_complete a \<and> \<not> is_error a)
      (?head @ scraped)"
    using list_all_progress_quiet [OF s(2)] by simp
  ultimately show "\<exists>events. generate_keyword_analysis env keyword limit
           = events @ [Yield (Error_event ''No comments found across any articles'')]
         \<and> list_all (\<lambda>a. \<not> is_service a \<and> \<not> is_complete a \<and> \<not> is_error a) events"
    by (intro exI [of _ "?head @ scraped"] conjI)
next
  assume a: "anthropic_api_key env
      \<and> extract_articles_from_section env section_url limit = Inr articles \<and> articles \<noteq> []
      \<and> list_all (no_comments env) articles"
  then obtain scraped where
    s: "scrape_articles env 0 (length articles) articles ([], []) = (scraped, [], [])"
       "list_all is_progress scraped"
    using scrape_nothing [of env articles 0 "length articles" "[]" "[]"] by blast
  let ?head = "[Yield (Progress ''searching'' ''Extracting articles from section page...''),
        Yield (Progress ''searching''
          (''Found '' @ show_nat (length articles) @ '' articles with comments'')),
        Yield (Result_event ''articles'' (Articles articles))]"
  have "generate_section_analysis env section_url limit
      = (?head @ scraped) @ [Yield (Error_event ''No comments found across any articles'')]"
    using a s(1) by (simp add: generate_section_analysis_def)
  moreover have "list_all (\<lambda>a. \<not> is_service a \<and> \<not> is_complete a \<and> \<not> is_error a)
      (?head @ scraped)"
    using list_all_progress_quiet [OF s(2)] by simp
  ultimately show "\<exists>events. generate_section_analysis env section_url limit
           = events @ [Yield (Error_event ''No comments found across any articles'')]
         \<and> list_all (\<lambda>a. \<not> is_service a \<and> \<not> is_complete a \<and> \<not> is_error a) events"
    by (intro exI [of _ "?head @ scraped"] conjI)
next
  assume "0 < batch_size"
  then show "extract_commercial_opportunities_batched env [] keyword article_count batch_size
        = ([], Inr empty_result)"
    by (simp add: extract_commercial_opportunities_batched_def split_batches_def range_step_def
        sorted_desc_def range_from_done)
qed

theorem no_comments_flows_witness:
  "generate_analysis quiet_env ''https://www.theguardian.com/a''
     = [Yield (Progress ''scraping'' ''Extracting discussion key...''),
        Yield (Progress ''scraping'' (''Found key '' @ ''/p/abc'' @ ''. Fetching comments...'')),
        Yield (Progress ''scraping'' ''Scraped 0 comments''),
        Yield (Result_event ''meta''
          (Meta [(''articleTitle'', Str ''Running shoes''),
                 (''articleUrl'', Str ''https://www.theguardian.com/a''),
                 (''totalComments'', Num 0),
                 (''uniqueCommenters'', Num 0),
                 (''commentsAnalyzed'', Num 0)])),
        Yield (Complete ''No comments to analyze.'')]
   \<and> (\<exists>events. generate_keyword_analysis quiet_env ''shoes'' 10
           = events @ [Yield (Error_event ''No comments found across any articles'')]
         \<and> list_all (\<lambda>a. \<not> is_service a \<and> \<not> is_complete a \<and> \<not> is_error a) events)
   \<and> (\<exists>events. generate_section_analysis quiet_env ''https://www.theguardian.com/uk/sport'' 10
           = events @ [Yield (Error_event ''No comments found across any articles'')]
         \<and> list_all (\<lambda>a. \<not> is_service a \<and> \<not> is_complete a \<and> \<not> is_error a) events)
   \<and> extract_commercial_opportunities_batched quiet_env [] ''shoes'' 1 200
        = ([], Inr empty_result)"
proof -
  let ?result = "\<lparr>fetched_comments = Some [], discussion_title = Some ''Running shoes''\<rparr>"
  note th = no_comments_flows [where env = quiet_env
      and article_url = "''https://www.theguardian.com/a''" and key = "''/p/abc''"
      and result = ?result and keyword = "''shoes''" and limit = 10
      and articles = "[an_article]" and section_url = "''https://www.theguardian.com/uk/sport''"
      and batch_size = 200 and article_count = 1]
  have h1: "anthropic_api_key quiet_env
      \<and> extract_short_url quiet_env ''https://www.theguardian.com/a'' = Inr ''/p/abc''
      \<and> fetch_all_comments quiet_env ''/p/abc'' = Inr ?result
      \<and> fetched_comments ?result = Some []"
    by (simp add: quiet_env_def)
  have h2: "anthropic_api_key quiet_env \<and> guardian_api_key quiet_env
      \<and> search_articles_by_keyword quiet_env ''shoes'' 10 = Inr [an_article]
      \<and> [an_article] \<noteq> [] \<and> list_all (no_comments quiet_env) [an_article]"
    by (simp add: quiet_env_def no_comments_def get_def)
  have h3: "anthropic_api_key quiet_env
      \<and> extract_articles_from_section quiet_env ''https://www.theguardian.com/uk/sport'' 10
          = Inr [an_article]
      \<and> [an_article] \<noteq> [] \<and> list_all (no_comments quiet_env) [an_article]"
    by (simp add: quiet_env_def no_comments_def get_def)
  have h4: "(0::nat) < 200" by simp
  note c1 = th [THEN conjunct1, THEN mp, OF h1]
  note c2 = th [THEN conjunct2, THEN conjunct1, THEN mp, OF h2]
  note c3 = th [THEN conjunct2, THEN conjunct2, THEN conjunct1, THEN mp, OF h3]
  note c4 = th [THEN conjunct2, THEN conjunct2, THEN conjunct2, THEN mp, OF h4]
  have c1': "generate_analysis quiet_env ''https://www.theguardian.com/a''
     = [Yield (Progress ''scraping'' ''Extracting discussion key...''),
        Yield (Progress ''scraping'' (''Found key '' @ ''/p/abc'' @ ''. Fetching comments...'')),
        Yield (Progress ''scraping'' ''Scraped 0 comments''),
        Yield (Result_event ''meta''
          (Meta [(''articleTitle'', Str ''Running shoes''),
                 (''articleUrl'', Str ''https://www.theguardian.com/a''),
                 (''totalComments'', Num 0),
                 (''uniqueCommenters'', Num 0),
                 (''commentsAnalyzed'', Num 0)])),
        Yield (Complete ''No comments to analyze.'')]"
    using c1 by (simp add: get_def)
  show ?thesis
    by (intro conjI) (rule c1', rule c2, rule c3, rule c4)
qed

end
